theory Spec2Isabelle
  imports Complex_Main "HOL-Library.Sublist"
begin

section \<open>The book player core: state, rendering window\<close>

text \<open>
  The development follows \<^verbatim>\<open>src/bloom-player-core.tsx\<close>. JavaScript strings are
  modelled as HOL strings, one \<^typ>\<open>char\<close> per code unit (code units below 256);
  array indices and the swiper index are integers.
\<close>

subsection \<open>Component state (interface IState)\<close>

record IState =
  pages :: "string list"
  styleRules :: string
  importedBodyClasses :: string
  currentSwiperIndex :: int
  isLoading :: bool
  loadFailed :: bool
  loadErrorHtml :: string
  ignorePhonyClick :: bool
  isFinishUpForNewBookComplete :: bool

text \<open>The initial value of \<^verbatim>\<open>state\<close> (lines 142-153).\<close>

definition initialState :: IState where
  "initialState =
     \<lparr> pages = [''loading...''], styleRules = '''', importedBodyClasses = '''',
       currentSwiperIndex = 0, isLoading = True, loadFailed = False,
       loadErrorHtml = '''', ignorePhonyClick = False,
       isFinishUpForNewBookComplete = False \<rparr>"

subsection \<open>render (lines 1066-1243)\<close>

text \<open>
  What \<^verbatim>\<open>render\<close> returns: the spinner while loading, the failure icon with the
  error markup after a failed load, and otherwise the swiper with one slide per entry of
  \<^verbatim>\<open>state.pages\<close>. A slide is either the scoped style plus the page markup, or the
  empty string.
\<close>

datatype slideContent =
    Materialized string string string
  | Placeholder

record slide =
  slideClassName :: string
  slideContents :: slideContent

datatype view =
    LoadingSpinner
  | LoadFailedView string
  | PlayerView string "slide list" bool bool

text \<open>\<^verbatim>\<open>getSlideClass\<close> (lines 1259-1270).\<close>

definition getSlideClass :: "bool \<Rightarrow> IState \<Rightarrow> int \<Rightarrow> string" where
  "getSlideClass showContextPages st itemIndex =
     (if \<not> showContextPages then ''''
      else if itemIndex = currentSwiperIndex st \<or> itemIndex = currentSwiperIndex st + 2
           then ''contextPage''
      else '''')"

text \<open>One iteration of \<^verbatim>\<open>this.state.pages.map((slide, index) => ...)\<close>.\<close>

definition renderSlide :: "bool \<Rightarrow> IState \<Rightarrow> nat \<Rightarrow> string \<Rightarrow> slide" where
  "renderSlide showContextPages st index markup =
     \<lparr> slideClassName = ''page-preview-slide '' @ getSlideClass showContextPages st (int index),
       slideContents =
         (if \<bar>int index - currentSwiperIndex st\<bar> < 2
          then Materialized (styleRules st) (''bloomPlayer-page '' @ importedBodyClasses st) markup
          else Placeholder) \<rparr>"

text \<open>
  The class of the root element, from \<^verbatim>\<open>outsideButtonPageClass\<close>,
  \<^verbatim>\<open>hideNextPrevButtons\<close> and whether the current activity absorbs dragging.
\<close>

definition bloomPlayerClass :: "string \<Rightarrow> bool \<Rightarrow> bool \<Rightarrow> string" where
  "bloomPlayerClass outsideButtonPageClass showNavEvenOnTouch hideNextPrevButtons =
     (if outsideButtonPageClass \<noteq> '''' then
        ''bloomPlayer'' @ '' '' @ outsideButtonPageClass
          @ (if showNavEvenOnTouch then '' showNavigationButtonsEvenOnTouchDevices'' else '''')
      else if showNavEvenOnTouch then
        ''bloomPlayer'' @ '' showNavigationButtonsEvenOnTouchDevices''
      else if hideNextPrevButtons then ''bloomPlayer'' @ '' hideNextPrevButtons''
      else ''bloomPlayer'')"

record renderProps =
  showContextPages :: bool
  outsideButtonPageClass :: string
  hideNextPrevButtons :: bool
  activityAbsorbsDragging :: bool

definition render :: "renderProps \<Rightarrow> IState \<Rightarrow> view" where
  "render props st =
     (if isLoading st then LoadingSpinner
      else if loadFailed st then LoadFailedView (loadErrorHtml st)
      else PlayerView
             (bloomPlayerClass (outsideButtonPageClass props) (activityAbsorbsDragging props)
                (hideNextPrevButtons props))
             (map (\<lambda>(index, markup). renderSlide (showContextPages props) st index markup)
                (enumerate 0 (pages st)))
             (currentSwiperIndex st = 0)
             (currentSwiperIndex st \<ge> int (length (pages st)) - 1))"

text \<open>
  The state change of \<^verbatim>\<open>setIndex\<close> (line 1281): \<^verbatim>\<open>setState({ currentSwiperIndex: index })\<close>.
\<close>

definition setIndex :: "int \<Rightarrow> IState \<Rightarrow> IState" where
  "setIndex index st = st\<lparr>currentSwiperIndex := index\<rparr>"

text \<open>The page markup a view shows, slide by slide (nothing for the spinner and the error).\<close>

fun renderedPageContent :: "view \<Rightarrow> slideContent list" where
  "renderedPageContent LoadingSpinner = []"
| "renderedPageContent (LoadFailedView html) = []"
| "renderedPageContent (PlayerView cls slides prevDisabled nextDisabled) = map slideContents slides"

text \<open>Two concrete inputs used below: a loaded book of four pages, and plain properties.\<close>

definition readyState :: IState where
  "readyState = initialState\<lparr> pages := [''p0'', ''p1'', ''p2'', ''p3''], styleRules := ''s{}'',
     currentSwiperIndex := 1, isLoading := False \<rparr>"

definition plainProps :: renderProps where
  "plainProps = \<lparr> showContextPages = False, outsideButtonPageClass = '''',
     hideNextPrevButtons = False, activityAbsorbsDragging = False \<rparr>"

section \<open>JavaScript strings\<close>

text \<open>
  The string methods the player calls, after the ECMAScript definitions:
  \<^verbatim>\<open>endsWith\<close>, \<^verbatim>\<open>startsWith\<close>, \<^verbatim>\<open>substring\<close> (arguments clamped to the
  string and swapped when out of order), \<^verbatim>\<open>indexOf\<close> and \<^verbatim>\<open>lastIndexOf\<close>
  (\<open>-1\<close> when there is no occurrence), \<^verbatim>\<open>trim\<close> and \<^verbatim>\<open>replace\<close> with a string
  pattern (first occurrence only).
\<close>

definition endsWith :: "string \<Rightarrow> string \<Rightarrow> bool" where
  "endsWith s t = (length t \<le> length s \<and> drop (length s - length t) s = t)"

definition startsWith :: "string \<Rightarrow> string \<Rightarrow> bool" where
  "startsWith s t = (take (length t) s = t)"

definition substring :: "string \<Rightarrow> int \<Rightarrow> int \<Rightarrow> string" where
  "substring s start stop =
     (let len = int (length s);
          fs = min (max start 0) len;
          fe = min (max stop 0) len;
          lo = min fs fe;
          hi = max fs fe
      in take (nat (hi - lo)) (drop (nat lo) s))"



fun lastIndexFrom :: "string \<Rightarrow> string \<Rightarrow> nat \<Rightarrow> int" where
  "lastIndexFrom s t 0 = (if startsWith s t then 0 else -1)"
| "lastIndexFrom s t (Suc n) =
     (if startsWith (drop (Suc n) s) t then int (Suc n) else lastIndexFrom s t n)"

definition lastIndexOf :: "string \<Rightarrow> string \<Rightarrow> int" where
  "lastIndexOf s t = lastIndexFrom s t (length s)"

text \<open>White space of \<^verbatim>\<open>trim\<close> and of \<^verbatim>\<open>\s\<close>, among the code units below 256.\<close>

definition isJsWhiteSpace :: "char \<Rightarrow> bool" where
  "isJsWhiteSpace c = (of_char c \<in> {9, 10, 11, 12, 13, 32, 160 :: nat})"

definition trim :: "string \<Rightarrow> string" where
  "trim s = rev (dropWhile isJsWhiteSpace (rev (dropWhile isJsWhiteSpace s)))"

fun replaceFirst :: "string \<Rightarrow> string \<Rightarrow> string \<Rightarrow> string" where
  "replaceFirst pat rep [] = (if pat = [] then rep else [])"
| "replaceFirst pat rep (c # cs) =
     (if startsWith (c # cs) pat then rep @ drop (length pat) (c # cs)
      else c # replaceFirst pat rep cs)"

text \<open>Errors thrown by the modelled code.\<close>

datatype jsError =
    Error string
  | SyntaxError
  | InvalidCharacterError

section \<open>Locating the book (preprocessUrl, componentDidUpdate)\<close>

text \<open>
  \<^verbatim>\<open>preprocessUrl\<close> (lines 579-601). The property \<^verbatim>\<open>url\<close> may be undefined
  (\<open>None\<close>); the result \<open>''''\<close> tells the caller to keep waiting.
\<close>

definition preprocessUrl :: "string option \<Rightarrow> jsError + string" where
  "preprocessUrl urlProp =
     (case urlProp of
        None \<Rightarrow> Inl (Error ''The url parameter was empty. It should point to the url of a book.'')
      | Some u \<Rightarrow>
          if trim u = '''' then
            Inl (Error ''The url parameter was empty. It should point to the url of a book.'')
          else if u = ''working'' then Inr ''''
          else
            let u1 = (if endsWith u ''/'' then substring u 0 (int (length u) - 1) else u);
                u2 = (if endsWith u1 ''%2f'' then substring u1 0 (int (length u1) - 3) else u1)
            in Inr u2)"

text \<open>
  The two addresses \<^verbatim>\<open>componentDidUpdate\<close> derives from the new \<^verbatim>\<open>sourceUrl\<close>
  (lines 260-287): the address of the book's htm file and the prefix of every other resource.
\<close>

record bookUrls =
  urlOfBookHtmlFile :: string
  urlPrefix :: string

definition bookFilename :: "string \<Rightarrow> string" where
  "bookFilename sourceUrl =
     (let slashIndex = lastIndexOf sourceUrl ''/'';
          encodedSlashIndex = lastIndexOf sourceUrl ''%2f''
      in if slashIndex > encodedSlashIndex
         then substring sourceUrl (slashIndex + 1) (int (length sourceUrl))
         else substring sourceUrl (encodedSlashIndex + 3) (int (length sourceUrl)))"

definition resolveBookUrls :: "string \<Rightarrow> bookUrls" where
  "resolveBookUrls sourceUrl =
     (let slashIndex = lastIndexOf sourceUrl ''/'';
          encodedSlashIndex = lastIndexOf sourceUrl ''%2f'';
          filename = bookFilename sourceUrl;
          haveFullPath = endsWith filename ''.htm''
      in \<lparr> urlOfBookHtmlFile =
             (if haveFullPath then sourceUrl else sourceUrl @ ''/'' @ filename @ ''.htm''),
           urlPrefix =
             (if haveFullPath then substring sourceUrl 0 (max slashIndex encodedSlashIndex)
              else sourceUrl) \<rparr>)"

text \<open>
  The guard of line 239: a book is (re)located only when \<^verbatim>\<open>preprocessUrl\<close> returns a
  non-empty address different from the current \<^verbatim>\<open>sourceUrl\<close>.
\<close>

definition locateBook :: "string option \<Rightarrow> string option \<Rightarrow> jsError + bookUrls option" where
  "locateBook urlProp currentSourceUrl =
     (case preprocessUrl urlProp of
        Inl e \<Rightarrow> Inl e
      | Inr newSourceUrl \<Rightarrow>
          if newSourceUrl \<noteq> '''' \<and> Some newSourceUrl \<noteq> currentSourceUrl
          then Inr (Some (resolveBookUrls newSourceUrl))
          else Inr None)"

section \<open>Load failures (HandleLoadingError)\<close>

text \<open>
  The argument of \<^verbatim>\<open>HandleLoadingError\<close> is the error of a rejected request: its
  \<^verbatim>\<open>message\<close> and, when the request was built, its \<^verbatim>\<open>config\<close> with the
  requested \<^verbatim>\<open>url\<close>.
\<close>

record requestConfig =
  url :: "string option"










section \<open>Analytics counters (storeAudioAnalytics, storeVideoAnalytics)\<close>

text \<open>
  A JavaScript number is a real number, one of the two infinities, or NaN. Rounding is not
  modelled: sums and comparisons are those of the reals, with the IEEE rules for the
  infinities and for NaN (every comparison with NaN is false, every sum with NaN is NaN).
\<close>

datatype jsNumber = NaN | NegInfinity | Finite real | PosInfinity

fun jsLess :: "jsNumber \<Rightarrow> jsNumber \<Rightarrow> bool" where
  "jsLess NaN y = False"
| "jsLess x NaN = False"
| "jsLess PosInfinity y = False"
| "jsLess x NegInfinity = False"
| "jsLess NegInfinity y = True"
| "jsLess x PosInfinity = True"
| "jsLess (Finite a) (Finite b) = (a < b)"

fun jsGreaterEq :: "jsNumber \<Rightarrow> jsNumber \<Rightarrow> bool" where
  "jsGreaterEq NaN y = False"
| "jsGreaterEq x NaN = False"
| "jsGreaterEq x y = (\<not> jsLess x y)"

fun jsAdd :: "jsNumber \<Rightarrow> jsNumber \<Rightarrow> jsNumber" where
  "jsAdd NaN y = NaN"
| "jsAdd x NaN = NaN"
| "jsAdd PosInfinity NegInfinity = NaN"
| "jsAdd NegInfinity PosInfinity = NaN"
| "jsAdd PosInfinity y = PosInfinity"
| "jsAdd x PosInfinity = PosInfinity"
| "jsAdd NegInfinity y = NegInfinity"
| "jsAdd x NegInfinity = NegInfinity"
| "jsAdd (Finite a) (Finite b) = Finite (a + b)"

definition Number_isNaN :: "jsNumber \<Rightarrow> bool" where
  "Number_isNaN x = (x = NaN)"

text \<open>
  The splitFields of \<^verbatim>\<open>BookInteraction\<close> the two functions touch, and what they send out:
  \<^verbatim>\<open>audioPageShown\<close>, \<^verbatim>\<open>videoPageShown\<close> and the progress report are recorded as
  events. Whether the current page is an xmatter page is read from the page shown and is a
  field here.
\<close>

datatype analyticsEvent = AudioPageShown int | VideoPageShown int | ProgressReport

record player =
  totalAudioDuration :: jsNumber
  totalVideoDuration :: jsNumber
  reportedAudioOnCurrentPage :: bool
  reportedVideoOnCurrentPage :: bool
  currentPageIsXmatter :: bool
  currentPageIndex :: int
  sent :: "analyticsEvent list"

text \<open>\<^verbatim>\<open>storeAudioAnalytics\<close> (lines 1397-1417).\<close>

definition storeAudioAnalytics :: "jsNumber \<Rightarrow> player \<Rightarrow> player" where
  "storeAudioAnalytics duration p =
     (if jsLess duration (Finite 0.001) \<or> Number_isNaN duration then p
      else
        let p1 = p\<lparr> totalAudioDuration := jsAdd (totalAudioDuration p) duration \<rparr>
        in if currentPageIsXmatter p1 then p1
           else
             let p2 = (if \<not> reportedAudioOnCurrentPage p1
                       then p1\<lparr> reportedAudioOnCurrentPage := True,
                                 sent := sent p1 @ [AudioPageShown (currentPageIndex p1)] \<rparr>
                       else p1)
             in p2\<lparr> sent := sent p2 @ [ProgressReport] \<rparr>)"

text \<open>\<^verbatim>\<open>storeVideoAnalytics\<close> (lines 1419-1437).\<close>

definition storeVideoAnalytics :: "jsNumber \<Rightarrow> player \<Rightarrow> player" where
  "storeVideoAnalytics duration p =
     (if jsLess duration (Finite 0.001) then p
      else
        let p1 = p\<lparr> totalVideoDuration := jsAdd (totalVideoDuration p) duration \<rparr>;
            p2 = (if \<not> reportedVideoOnCurrentPage p1 \<and> \<not> currentPageIsXmatter p1
                  then p1\<lparr> reportedVideoOnCurrentPage := True,
                            sent := sent p1 @ [VideoPageShown (currentPageIndex p1)] \<rparr>
                  else p1)
        in p2\<lparr> sent := sent p2 @ [ProgressReport] \<rparr>)"

text \<open>A player that has accumulated five seconds of audio and of video.\<close>

definition fiveSecondsPlayed :: player where
  "fiveSecondsPlayed =
     \<lparr> totalAudioDuration = Finite 5, totalVideoDuration = Finite 5,
       reportedAudioOnCurrentPage = True, reportedVideoOnCurrentPage = True,
       currentPageIsXmatter = False, currentPageIndex = 3, sent = [] \<rparr>"

section \<open>The book document\<close>

text \<open>
  The parsed book is a tree of elements and text nodes. An element has a tag name (lower
  case, as the parser of an html document gives it), its attributes in order, each name
  once, and its child nodes.
\<close>

datatype node =
    Element (tagName: string) (attributes: "(string \<times> string) list") (childNodes: "node list")
  | TextNode (textData: string)

definition getAttribute :: "node \<Rightarrow> string \<Rightarrow> string option" where
  "getAttribute n name = (case n of Element t as ks \<Rightarrow> map_of as name | TextNode s \<Rightarrow> None)"

fun setAttr :: "(string \<times> string) list \<Rightarrow> string \<Rightarrow> string \<Rightarrow> (string \<times> string) list" where
  "setAttr [] name v = [(name, v)]"
| "setAttr ((k, w) # as) name v = (if k = name then (k, v) # as else (k, w) # setAttr as name v)"

definition setAttribute :: "node \<Rightarrow> string \<Rightarrow> string \<Rightarrow> node" where
  "setAttribute n name v =
     (case n of Element t as ks \<Rightarrow> Element t (setAttr as name v) ks | TextNode s \<Rightarrow> TextNode s)"

text \<open>
  The node reached from \<open>n\<close> by a path of child indices; \<open>nodeAt n []\<close> is \<open>n\<close> itself
  and every non-empty path leads to a descendant.
\<close>

fun nodeAt :: "node \<Rightarrow> nat list \<Rightarrow> node option" where
  "nodeAt n [] = Some n"
| "nodeAt (Element t as ks) (i # path) = (if i < length ks then nodeAt (ks ! i) path else None)"
| "nodeAt (TextNode s) (i # path) = None"

subsection \<open>classList\<close>

text \<open>
  \<^verbatim>\<open>classList\<close> is the ordered set of the tokens of the \<^verbatim>\<open>class\<close> attribute: the
  value split on ASCII white space, empty pieces dropped, a repeated token kept once at its
  first place. \<^verbatim>\<open>add\<close> and \<^verbatim>\<open>remove\<close> change the set and write it back to the attribute,
  the tokens joined by single spaces.
\<close>

definition isAsciiWhitespace :: "char \<Rightarrow> bool" where
  "isAsciiWhitespace c = (of_char c \<in> {9, 10, 12, 13, 32 :: nat})"

fun splitFields :: "(char \<Rightarrow> bool) \<Rightarrow> string \<Rightarrow> string list" where
  "splitFields sep [] = [[]]"
| "splitFields sep (c # cs) =
     (if sep c then [] # splitFields sep cs
      else (case splitFields sep cs of [] \<Rightarrow> [[c]] | f # fs \<Rightarrow> (c # f) # fs))"

fun orderedSet :: "string list \<Rightarrow> string list" where
  "orderedSet [] = []"
| "orderedSet (t # ts) = t # orderedSet (filter (\<lambda>u. u \<noteq> t) ts)"

definition parseTokens :: "string \<Rightarrow> string list" where
  "parseTokens v = orderedSet (filter (\<lambda>t. t \<noteq> []) (splitFields isAsciiWhitespace v))"

fun serializeTokens :: "string list \<Rightarrow> string" where
  "serializeTokens [] = []"
| "serializeTokens [t] = t"
| "serializeTokens (t # u # ts) = t @ '' '' @ serializeTokens (u # ts)"

definition classList :: "node \<Rightarrow> string list" where
  "classList n = (case getAttribute n ''class'' of None \<Rightarrow> [] | Some v \<Rightarrow> parseTokens v)"

definition classList_contains :: "node \<Rightarrow> string \<Rightarrow> bool" where
  "classList_contains n token = (token \<in> set (classList n))"

text \<open>
  The update steps of a token list: nothing is written when the element has no
  \<^verbatim>\<open>class\<close> attribute and the set is empty.
\<close>

definition writeTokens :: "node \<Rightarrow> string list \<Rightarrow> node" where
  "writeTokens n ts =
     (if getAttribute n ''class'' = None \<and> ts = [] then n
      else setAttribute n ''class'' (serializeTokens ts))"

definition tokenAdd :: "node \<Rightarrow> string \<Rightarrow> node" where
  "tokenAdd n token =
     writeTokens n (if token \<in> set (classList n) then classList n else classList n @ [token])"

definition tokenRemove :: "node \<Rightarrow> string \<Rightarrow> node" where
  "tokenRemove n token = writeTokens n (filter (\<lambda>t. t \<noteq> token) (classList n))"

text \<open>
  \<^verbatim>\<open>add\<close> and \<^verbatim>\<open>remove\<close> throw for a token that is empty (SyntaxError) or holds ASCII
  white space (InvalidCharacterError), before anything is changed.
\<close>

definition validToken :: "string \<Rightarrow> bool" where
  "validToken token = (token \<noteq> [] \<and> (\<forall>c \<in> set token. \<not> isAsciiWhitespace c))"

definition checkToken :: "string \<Rightarrow> jsError option" where
  "checkToken token =
     (if token = [] then Some SyntaxError
      else if \<exists>c \<in> set token. isAsciiWhitespace c then Some InvalidCharacterError
      else None)"

definition classList_add :: "node \<Rightarrow> string \<Rightarrow> jsError + node" where
  "classList_add n token =
     (case checkToken token of Some e \<Rightarrow> Inl e | None \<Rightarrow> Inr (tokenAdd n token))"

definition classList_remove :: "node \<Rightarrow> string \<Rightarrow> jsError + node" where
  "classList_remove n token =
     (case checkToken token of Some e \<Rightarrow> Inl e | None \<Rightarrow> Inr (tokenRemove n token))"

section \<open>Language visibility (updateDivVisibilityByLangCode)\<close>

text \<open>
  \<^verbatim>\<open>areStringsEqualInvariantCultureIgnoreCase\<close> (lines 750-755) asks the platform's
  collation, \<^verbatim>\<open>a.localeCompare(b, "en-US", { sensitivity: "accent" })\<close>, whether the two
  strings are equal. The collation is a parameter of the model.
\<close>

type_synonym collation = "string \<Rightarrow> string \<Rightarrow> int"

definition areStringsEqualInvariantCultureIgnoreCase :: "collation \<Rightarrow> string \<Rightarrow> string \<Rightarrow> bool" where
  "areStringsEqualInvariantCultureIgnoreCase localeCompare a b = (localeCompare a b = 0)"

text \<open>\<^verbatim>\<open>isDivInL2\<close>, \<^verbatim>\<open>isDivInL3\<close> (lines 757-763).\<close>

definition isDivInL2 :: "node \<Rightarrow> bool" where
  "isDivInL2 divElement = classList_contains divElement ''bloom-contentNational1''"

definition isDivInL3 :: "node \<Rightarrow> bool" where
  "isDivInL3 divElement = classList_contains divElement ''bloom-contentNational2''"

text \<open>
  \<^verbatim>\<open>shouldNormallyShowEditable\<close> (lines 709-748). The list of default languages may be
  null or undefined (\<open>None\<close>); \<^verbatim>\<open>!dataDefaultLanguages[0]\<close> holds for an empty first
  entry.
\<close>

definition shouldNormallyShowEditable ::
  "collation \<Rightarrow> string \<Rightarrow> string list option \<Rightarrow> string \<Rightarrow> node \<Rightarrow> bool" where
  "shouldNormallyShowEditable localeCompare lang dataDefaultLanguages settingsLang1 divElement =
     (let matchesContent2 = classList_contains divElement ''bloom-content2'';
          matchesContent3 = classList_contains divElement ''bloom-content3''
      in case dataDefaultLanguages of
           None \<Rightarrow> lang = settingsLang1 \<or> matchesContent2 \<or> matchesContent3
         | Some [] \<Rightarrow> lang = settingsLang1 \<or> matchesContent2 \<or> matchesContent3
         | Some (first # others) \<Rightarrow>
             if first = '''' \<or> areStringsEqualInvariantCultureIgnoreCase localeCompare first ''auto''
             then lang = settingsLang1 \<or> matchesContent2 \<or> matchesContent3
             else (lang = settingsLang1 \<and> ''V'' \<in> set (first # others))
                \<or> (lang = settingsLang1 \<and> ''L1'' \<in> set (first # others))
                \<or> (isDivInL2 divElement \<and> ''N1'' \<in> set (first # others))
                \<or> (isDivInL2 divElement \<and> ''L2'' \<in> set (first # others))
                \<or> (isDivInL3 divElement \<and> ''N2'' \<in> set (first # others))
                \<or> (isDivInL3 divElement \<and> ''L3'' \<in> set (first # others))
                \<or> lang \<in> set (first # others))"

text \<open>
  The elements selected by \<^verbatim>\<open>.//div[contains(@class, 'bloom-translationGroup')]\<close>: a
  \<open>div\<close> whose \<^verbatim>\<open>class\<close> attribute has that substring.
\<close>

definition isTranslationGroup :: "node \<Rightarrow> bool" where
  "isTranslationGroup n =
     (case n of
        Element t as ks \<Rightarrow>
          t = ''div'' \<and> (case map_of as ''class'' of None \<Rightarrow> False
                         | Some v \<Rightarrow> sublist ''bloom-translationGroup'' v)
      | TextNode s \<Rightarrow> False)"

text \<open>
  The list \<^verbatim>\<open>dataDefaultLangs\<close> of a group (lines 649-656): the attribute split at every
  comma and every space, or the empty list when the attribute is missing or empty.
\<close>

definition dataDefaultLangs :: "node \<Rightarrow> string list" where
  "dataDefaultLangs groupElement =
     (case getAttribute groupElement ''data-default-languages'' of
        None \<Rightarrow> []
      | Some v \<Rightarrow> if v = '''' then [] else splitFields (\<lambda>c. c = CHR '','' \<or> c = CHR '' '') v)"

text \<open>The test of lines 661-667: only child elements of class \<open>bloom-editable\<close> are treated.\<close>

definition isEditable :: "node \<Rightarrow> bool" where
  "isEditable n = (case n of Element t as ks \<Rightarrow> classList_contains n ''bloom-editable'' | TextNode s \<Rightarrow> False)"

text \<open>
  The body of the inner loop for one editable child (lines 669-698). The class names passed
  to \<^verbatim>\<open>add\<close> and \<^verbatim>\<open>remove\<close> are fixed valid tokens, so no call throws.
\<close>

definition updateEditable :: "collation \<Rightarrow> string \<Rightarrow> string list \<Rightarrow> node \<Rightarrow> node" where
  "updateEditable localeCompare langVernacular defaultLangs divElement =
     (let divLang = getAttribute divElement ''lang'';
          shouldShow = shouldNormallyShowEditable localeCompare
                         (case divLang of None \<Rightarrow> '''' | Some l \<Rightarrow> l)
                         (Some defaultLangs) langVernacular divElement;
          d1 = (if shouldShow
                then tokenRemove (tokenAdd divElement ''bloom-visibility-code-on'')
                       ''bloom-visibility-code-off''
                else tokenRemove divElement ''bloom-visibility-code-on'')
      in if divLang = Some langVernacular then tokenAdd d1 ''bloom-content1''
         else tokenRemove d1 ''bloom-content1'')"

text \<open>
  One child of an element with tag \<open>t\<close> and attributes \<open>as\<close>, after the loops: it is
  rewritten when its parent is a translation group and it is editable.
\<close>

definition processChild ::
  "collation \<Rightarrow> string \<Rightarrow> string \<Rightarrow> (string \<times> string) list \<Rightarrow> node \<Rightarrow> node" where
  "processChild localeCompare langVernacular t as child =
     (if isTranslationGroup (Element t as []) \<and> isEditable child
      then updateEditable localeCompare langVernacular (dataDefaultLangs (Element t as [])) child
      else child)"

text \<open>
  The two loops over a subtree: every translation group in it, the root of the subtree
  included, has its editable children rewritten. A node is rewritten at most once, as child
  of its parent, and only its \<^verbatim>\<open>class\<close> attribute changes, so the order in which the
  snapshot lists the groups does not matter.
\<close>

fun updateGroups :: "collation \<Rightarrow> string \<Rightarrow> node \<Rightarrow> node" where
  "updateGroups localeCompare langVernacular (TextNode s) = TextNode s"
| "updateGroups localeCompare langVernacular (Element t as ks) =
     Element t as
       (map (\<lambda>k. processChild localeCompare langVernacular t as
                    (updateGroups localeCompare langVernacular k)) ks)"

text \<open>
  \<^verbatim>\<open>updateDivVisibilityByLangCode\<close> (lines 621-701) on \<^verbatim>\<open>this.htmlElement\<close>. The path
  \<^verbatim>\<open>.//div\<close> selects descendants of the context node only, so the root itself is never
  treated as a group.
\<close>

definition updateDivVisibilityByLangCode :: "collation \<Rightarrow> string \<Rightarrow> node option \<Rightarrow> node option" where
  "updateDivVisibilityByLangCode localeCompare activeLanguageCode htmlElement =
     (if activeLanguageCode = '''' then htmlElement
      else case htmlElement of
             None \<Rightarrow> None
           | Some (TextNode s) \<Rightarrow> Some (TextNode s)
           | Some (Element t as ks) \<Rightarrow>
               Some (Element t as (map (updateGroups localeCompare activeLanguageCode) ks)))"

text \<open>
  A collation for the examples: equal when the two strings agree up to the case of the
  letters \<open>a\<close> to \<open>z\<close>, otherwise ordered by the first differing code.
\<close>

definition foldCase :: "char \<Rightarrow> nat" where
  "foldCase c = (if 65 \<le> (of_char c :: nat) \<and> (of_char c :: nat) \<le> 90 then of_char c + 32 else of_char c)"

fun caseInsensitiveCompare :: collation where
  "caseInsensitiveCompare [] [] = 0"
| "caseInsensitiveCompare [] (d # ds) = -1"
| "caseInsensitiveCompare (c # cs) [] = 1"
| "caseInsensitiveCompare (c # cs) (d # ds) =
     (if foldCase c < foldCase d then -1
      else if foldCase d < foldCase c then 1
      else caseInsensitiveCompare cs ds)"

text \<open>The translation group of the scenario: two children, English and French.\<close>

definition englishChild :: node where
  "englishChild = Element ''div'' [(''class'', ''bloom-editable''), (''lang'', ''en'')] [TextNode ''Hello'']"

definition frenchChild :: node where
  "frenchChild = Element ''div'' [(''class'', ''bloom-editable''), (''lang'', ''fr'')] [TextNode ''Bonjour'']"

definition scenarioBook :: node where
  "scenarioBook =
     Element ''html'' []
       [Element ''body'' []
          [Element ''div'' [(''class'', ''bloom-translationGroup''), (''data-default-languages'', ''V'')]
             [englishChild, frenchChild]]]"

section \<open>Page size classes (getPageSizeClass, setPageSizeClass)\<close>

text \<open>
  \<^verbatim>\<open>getPageSizeClass\<close> (lines 822-830) returns the first match of the pattern
  \<^verbatim>\<open>\b\S*?(Portrait|Landscape)\b\<close> in the \<^verbatim>\<open>class\<close> attribute, or the empty string.
  A word character is a letter, a digit or the underscore; a word boundary stands between
  a word character and a character that is none (or an end of the string).
\<close>

definition isWordChar :: "char \<Rightarrow> bool" where
  "isWordChar c =
     (let n = (of_char c :: nat)
      in (48 \<le> n \<and> n \<le> 57) \<or> (65 \<le> n \<and> n \<le> 90) \<or> (97 \<le> n \<and> n \<le> 122) \<or> n = 95)"

definition boundaryBefore :: "string \<Rightarrow> bool" where
  "boundaryBefore rest = (case rest of [] \<Rightarrow> True | c # cs \<Rightarrow> \<not> isWordChar c)"

text \<open>
  The lazy part of the pattern from a fixed start: \<open>consumed\<close> holds the characters
  taken by \<^verbatim>\<open>\S*?\<close> so far. The shortest extension that is followed by one of the two
  words and a word boundary wins; white space ends the attempt.
\<close>

fun lazyScan :: "string \<Rightarrow> string \<Rightarrow> string option" where
  "lazyScan consumed [] = None"
| "lazyScan consumed (c # cs) =
     (if startsWith (c # cs) ''Portrait'' \<and> boundaryBefore (drop 8 (c # cs))
        then Some (consumed @ ''Portrait'')
      else if startsWith (c # cs) ''Landscape'' \<and> boundaryBefore (drop 9 (c # cs))
        then Some (consumed @ ''Landscape'')
      else if isJsWhiteSpace c then None
      else lazyScan (consumed @ [c]) cs)"

text \<open>
  The search for the leftmost start: a position is tried when a word boundary stands
  there, \<open>prevIsWord\<close> telling whether the character before it is a word character.
\<close>

fun searchSizeClass :: "bool \<Rightarrow> string \<Rightarrow> string option" where
  "searchSizeClass prevIsWord [] = None"
| "searchSizeClass prevIsWord (c # cs) =
     (if prevIsWord \<noteq> isWordChar c then
        (case lazyScan [] (c # cs) of
           Some found \<Rightarrow> Some found
         | None \<Rightarrow> searchSizeClass (isWordChar c) cs)
      else searchSizeClass (isWordChar c) cs)"

definition getPageSizeClass :: "node \<Rightarrow> string" where
  "getPageSizeClass page =
     (let classAttr = (case getAttribute page ''class'' of None \<Rightarrow> '''' | Some v \<Rightarrow> v)
      in case searchSizeClass False classAttr of Some found \<Rightarrow> found | None \<Rightarrow> '''')"

text \<open>
  \<^verbatim>\<open>setPageSizeClass\<close> (lines 834-864), the static function. It returns the page as
  changed together with the flag, or the error \<^verbatim>\<open>classList.add\<close> throws.
\<close>

definition desiredPageClass :: "bool \<Rightarrow> bool \<Rightarrow> string \<Rightarrow> string" where
  "desiredPageClass landscape useOriginalPageSize originalPageClass =
     (if useOriginalPageSize then
        (if landscape then replaceFirst ''Portrait'' ''Landscape'' originalPageClass
         else replaceFirst ''Landscape'' ''Portrait'' originalPageClass)
      else (if landscape then ''Device16x9Landscape'' else ''Device16x9Portrait''))"

definition setPageSizeClass ::
  "node \<Rightarrow> bool \<Rightarrow> bool \<Rightarrow> bool \<Rightarrow> string \<Rightarrow> jsError + (node \<times> bool)" where
  "setPageSizeClass page bookCanRotate showLandscape useOriginalPageSize originalPageClass =
     (let sizeClass = getPageSizeClass page
      in if sizeClass \<noteq> '''' then
           let landscape = (if bookCanRotate then showLandscape else endsWith sizeClass ''Landscape'');
               desiredClass = desiredPageClass landscape useOriginalPageSize originalPageClass
           in if sizeClass \<noteq> desiredClass then
                (case classList_remove page sizeClass of
                   Inl e \<Rightarrow> Inl e
                 | Inr page1 \<Rightarrow>
                     (case classList_add page1 desiredClass of
                        Inl e \<Rightarrow> Inl e
                      | Inr page2 \<Rightarrow> Inr (page2, landscape)))
              else Inr (page, landscape)
         else Inr (page, False))"

text \<open>Two pages for the examples.\<close>

definition devicePortraitPage :: node where
  "devicePortraitPage =
     Element ''div'' [(''class'', ''bloom-page numberedPage Device16x9Portrait side-right'')] []"

definition a5PortraitPage :: node where
  "a5PortraitPage = Element ''div'' [(''class'', ''bloom-page A5Portrait'')] []"

section \<open>Resource addresses (fullUrl, fixRelativeUrls)\<close>

text \<open>
  \<^verbatim>\<open>fullUrl\<close> (lines 1053-1057): the prefix, a slash and the address; a null address
  is printed as \<open>null\<close> by the concatenation.
\<close>

definition fullUrl :: "string \<Rightarrow> string option \<Rightarrow> string" where
  "fullUrl bookPrefix u = bookPrefix @ ''/'' @ (case u of None \<Rightarrow> ''null'' | Some v \<Rightarrow> v)"

text \<open>
  The pattern \<^verbatim>\<open>background-image:url\(['"](.*)['"]\)\<close> of line 904. After the opening
  quote the group \<^verbatim>\<open>(.*)\<close> is greedy and stays on one line, so it ends at the last quote
  of that line that is followed by a closing parenthesis.
\<close>

definition isQuoteChar :: "char \<Rightarrow> bool" where
  "isQuoteChar c = (c = CHR 0x27 \<or> c = CHR 0x22)"

definition isLineTerminator :: "char \<Rightarrow> bool" where
  "isLineTerminator c = (of_char c \<in> {10, 13 :: nat})"

fun lastClose :: "string \<Rightarrow> nat option" where
  "lastClose [] = None"
| "lastClose (c # cs) =
     (case lastClose cs of
        Some j \<Rightarrow> Some (Suc j)
      | None \<Rightarrow> (if isQuoteChar c \<and> (case cs of [] \<Rightarrow> False | d # ds \<Rightarrow> d = CHR '')'')
                 then Some 0 else None))"

text \<open>A match that starts at the head of the string: the group and the text after the match.\<close>

definition matchBackgroundAt :: "string \<Rightarrow> (string \<times> string) option" where
  "matchBackgroundAt s =
     (if startsWith s ''background-image:url('' then
        (case drop (length ''background-image:url('') s of
           [] \<Rightarrow> None
         | q # rest \<Rightarrow>
             if isQuoteChar q then
               (case lastClose (takeWhile (\<lambda>c. \<not> isLineTerminator c) rest) of
                  None \<Rightarrow> None
                | Some j \<Rightarrow> Some (take j rest, drop (j + 2) rest))
             else None)
      else None)"

text \<open>
  \<^verbatim>\<open>regexp.exec(style)\<close>: the leftmost match, as the text before it, the group and the
  text after it. \<^verbatim>\<open>style.replace(regexp, "")\<close> is then the text before followed by the
  text after.
\<close>

fun execBackgroundImage :: "string \<Rightarrow> (string \<times> string \<times> string) option" where
  "execBackgroundImage [] = None"
| "execBackgroundImage (c # cs) =
     (case matchBackgroundAt (c # cs) of
        Some (captured, after) \<Rightarrow> Some ([], captured, after)
      | None \<Rightarrow>
          (case execBackgroundImage cs of
             None \<Rightarrow> None
           | Some (before, captured, after) \<Rightarrow> Some (c # before, captured, after)))"

text \<open>The body of the first loop (lines 885-893), for an element selected by \<^verbatim>\<open>.//*[@src]\<close>.\<close>

definition fixSrc :: "string \<Rightarrow> node \<Rightarrow> node" where
  "fixSrc bookPrefix item =
     (case getAttribute item ''src'' of
        None \<Rightarrow> item
      | Some srcName \<Rightarrow> setAttribute item ''src'' (fullUrl bookPrefix (Some srcName)))"

text \<open>The body of the second loop (lines 906-926), for an element selected by \<^verbatim>\<open>.//*[@style]\<close>.\<close>

definition fixStyle :: "string \<Rightarrow> node \<Rightarrow> node" where
  "fixStyle bookPrefix item =
     (case getAttribute item ''style'' of
        None \<Rightarrow> item
      | Some style \<Rightarrow>
          (case execBackgroundImage style of
             None \<Rightarrow> item
           | Some (before, captured, after) \<Rightarrow>
               tokenAdd
                 (setAttribute (setAttribute item ''style'' (before @ after))
                    ''data-background'' (fullUrl bookPrefix (Some captured)))
                 ''swiper-lazy''))"

text \<open>
  A loop over a snapshot of elements of a subtree that changes only attributes of the
  element it visits: every element of the subtree, its root included, is visited once.
\<close>

fun mapElements :: "(node \<Rightarrow> node) \<Rightarrow> node \<Rightarrow> node" where
  "mapElements f (TextNode s) = TextNode s"
| "mapElements f (Element t as ks) = f (Element t as (map (mapElements f) ks))"

text \<open>The same over the descendants only, as a path starting with \<^verbatim>\<open>.//\<close> selects them.\<close>

definition mapDescendants :: "(node \<Rightarrow> node) \<Rightarrow> node \<Rightarrow> node" where
  "mapDescendants f n =
     (case n of TextNode s \<Rightarrow> TextNode s
      | Element t as ks \<Rightarrow> Element t as (map (mapElements f) ks))"

text \<open>\<^verbatim>\<open>fixRelativeUrls\<close> (lines 876-927): the two loops, one after the other.\<close>

definition fixRelativeUrls :: "string \<Rightarrow> node \<Rightarrow> node" where
  "fixRelativeUrls bookPrefix page = mapDescendants (fixStyle bookPrefix) (mapDescendants (fixSrc bookPrefix) page)"

text \<open>
  A page for the examples: the page element itself has a background, and so have three
  children; in the last one an address without quotes comes first.
\<close>

definition backgroundPage :: node where
  "backgroundPage =
     Element ''div'' [(''class'', ''bloom-page''), (''style'', ''background-image:url('cover.png')'')]
       [Element ''img'' [(''src'', ''photo.png'')] [],
        Element ''div'' [(''class'', ''bloom-imageContainer''),
                         (''style'', ''color:red;background-image:url('a.png');width:5px'')] [],
        Element ''div'' [(''style'', ''background-image:url('a.png');list-style-image:url('b.png')'')] [],
        Element ''div'' [(''style'', ''background-image:url(x.png);background-image:url('a.png')'')] []]"

section \<open>Style sheets (assembleStyleSheets, makeFontStylesheet)\<close>

text \<open>
  The elements of a subtree in document order, and the elements below a node: what a path
  starting with \<^verbatim>\<open>.//\<close> ranges over. The snapshot of the \<open>link\<close> elements is requested
  unordered; it is taken in document order here, as for the \<open>style\<close> elements.
\<close>

fun elementsOf :: "node \<Rightarrow> node list" where
  "elementsOf (TextNode s) = []"
| "elementsOf (Element t as ks) = Element t as ks # concat (map elementsOf ks)"

definition descendantElements :: "node \<Rightarrow> node list" where
  "descendantElements n =
     (case n of TextNode s \<Rightarrow> [] | Element t as ks \<Rightarrow> concat (map elementsOf ks))"

text \<open>The selection \<^verbatim>\<open>.//link[@href and @type='text/css']\<close>.\<close>

definition linkElts :: "node \<Rightarrow> node list" where
  "linkElts doc =
     filter (\<lambda>e. tagName e = ''link'' \<and> getAttribute e ''href'' \<noteq> None
                 \<and> getAttribute e ''type'' = Some ''text/css'')
       (descendantElements doc)"

text \<open>The selection \<^verbatim>\<open>.//style[@type='text/css']\<close>.\<close>

definition styleElts :: "node \<Rightarrow> node list" where
  "styleElts doc =
     filter (\<lambda>e. tagName e = ''style'' \<and> getAttribute e ''type'' = Some ''text/css'')
       (descendantElements doc)"

text \<open>
  \<^verbatim>\<open>innerText\<close> of an element of the parsed book, which is not rendered: the text of its
  descendants, as \<^verbatim>\<open>textContent\<close>.
\<close>

fun innerText :: "node \<Rightarrow> string" where
  "innerText (TextNode s) = s"
| "innerText (Element t as ks) = concat (map innerText ks)"

text \<open>
  The network answers a request for an address with the data of the file, or the request
  fails (\<open>None\<close>). \<^verbatim>\<open>httpget\<close> (lines 1464-1468) escapes every \<open>#\<close> of the address; a
  response carries the data and the address requested.
\<close>

type_synonym network = "string \<Rightarrow> string option"

record response =
  responseData :: string
  responseUrl :: string

definition httpget :: "network \<Rightarrow> string \<Rightarrow> response option" where
  "httpget net u =
     (let fixedUrl = concat (map (\<lambda>c. if c = CHR ''#'' then ''%23'' else [c]) u)
      in case net fixedUrl of
           None \<Rightarrow> None
         | Some d \<Rightarrow> Some \<lparr> responseData = d, responseUrl = fixedUrl \<rparr>)"

subsection \<open>The font style sheet\<close>

text \<open>
  The replacement text of \<^verbatim>\<open>String.prototype.replace\<close>: in the template, \<open>$$\<close> stands
  for a dollar sign, \<open>$&\<close> for the match, \<open>$`\<close> and \<open>$'\<close> for the text before and after
  it, \<open>$1\<close> and \<open>$01\<close> for the group (the pattern has one group); every other
  character stands for itself. \<open>templateStep\<close> reads one such item at the head of the
  template and gives its text and its length; \<open>expandFrom\<close> goes through the template,
  \<open>skip\<close> counting the characters of the item just read.
\<close>

definition templateStep ::
  "string \<Rightarrow> string \<Rightarrow> string \<Rightarrow> string \<Rightarrow> string \<Rightarrow> string \<times> nat" where
  "templateStep template matched captured textBefore textAfter =
     (case template of
        [] \<Rightarrow> ([], 0)
      | [c] \<Rightarrow> ([c], 1)
      | c # d # r \<Rightarrow>
          if c \<noteq> CHR ''$'' then ([c], 1)
          else if d = CHR ''$'' then (''$'', 2)
          else if d = CHR ''&'' then (matched, 2)
          else if d = CHR ''`'' then (textBefore, 2)
          else if d = CHR 0x27 then (textAfter, 2)
          else if d = CHR ''1'' then (captured, 2)
          else if d = CHR ''0'' \<and> (case r of [] \<Rightarrow> False | e # r' \<Rightarrow> e = CHR ''1'') then (captured, 3)
          else ([c], 1))"

fun expandFrom :: "nat \<Rightarrow> string \<Rightarrow> string \<Rightarrow> string \<Rightarrow> string \<Rightarrow> string \<Rightarrow> string" where
  "expandFrom skip [] matched captured textBefore textAfter = []"
| "expandFrom (Suc k) (c # cs) matched captured textBefore textAfter =
     expandFrom k cs matched captured textBefore textAfter"
| "expandFrom 0 (c # cs) matched captured textBefore textAfter =
     (case templateStep (c # cs) matched captured textBefore textAfter of
        (out, n) \<Rightarrow> out @ expandFrom (n - 1) cs matched captured textBefore textAfter)"

definition expandTemplate :: "string \<Rightarrow> string \<Rightarrow> string \<Rightarrow> string \<Rightarrow> string \<Rightarrow> string" where
  "expandTemplate template matched captured textBefore textAfter =
     expandFrom 0 template matched captured textBefore textAfter"

text \<open>
  The pattern \<^verbatim>\<open>src:url\(['"]?(.*\.[^\)'"]*)['"]?\)\<close> of line 964. With the greedy
  \<^verbatim>\<open>.*\<close> ending before the dot at position \<open>n\<close> of \<open>r\<close>, the class
  \<^verbatim>\<open>[^\)'"]*\<close> takes all it can, and the match succeeds when a closing parenthesis,
  or a quote and a closing parenthesis, follows: the result is the length of the group and
  the length of what closes the match.
\<close>

definition isGroupTailChar :: "char \<Rightarrow> bool" where
  "isGroupTailChar c = (c \<noteq> CHR '')'' \<and> \<not> isQuoteChar c)"

definition closeAfterDot :: "string \<Rightarrow> nat \<Rightarrow> (nat \<times> nat) option" where
  "closeAfterDot r n =
     (let run = takeWhile isGroupTailChar (drop (n + 1) r);
          groupLength = n + 1 + length run
      in case drop groupLength r of
           [] \<Rightarrow> None
         | c # cs \<Rightarrow>
             if isQuoteChar c then
               (case cs of
                  [] \<Rightarrow> None
                | d # ds \<Rightarrow> if d = CHR '')'' then Some (groupLength, 2) else None)
             else if c = CHR '')'' then Some (groupLength, 1)
             else None)"

fun firstClosing :: "string \<Rightarrow> nat list \<Rightarrow> (nat \<times> nat) option" where
  "firstClosing r [] = None"
| "firstClosing r (n # ns) =
     (case closeAfterDot r n of Some x \<Rightarrow> Some x | None \<Rightarrow> firstClosing r ns)"

text \<open>
  The group from the start of \<open>r\<close>: the dots of the first line of \<open>r\<close> are tried from
  the last to the first, as the greedy \<^verbatim>\<open>.*\<close> gives back one character at a time.
\<close>

definition matchGroup :: "string \<Rightarrow> (nat \<times> nat) option" where
  "matchGroup r =
     (let line = takeWhile (\<lambda>c. \<not> isLineTerminator c) r
      in firstClosing r (filter (\<lambda>n. line ! n = CHR ''.'') (rev [0 ..< length line])))"

text \<open>
  A match at the head of the string: the group and the length of the match. The optional
  opening quote is taken when the rest of the pattern then matches, and left to the group
  otherwise.
\<close>

definition matchFontUrlAt :: "string \<Rightarrow> (string \<times> nat) option" where
  "matchFontUrlAt s =
     (if startsWith s ''src:url('' then
        (let r = drop (length ''src:url('') s;
             quoted = (case r of
                         [] \<Rightarrow> None
                       | q # r1 \<Rightarrow>
                           if isQuoteChar q then
                             (case matchGroup r1 of
                                None \<Rightarrow> None
                              | Some (g, closing) \<Rightarrow>
                                  Some (take g r1, length ''src:url('' + 1 + g + closing))
                           else None)
         in case quoted of
              Some x \<Rightarrow> Some x
            | None \<Rightarrow>
                (case matchGroup r of
                   None \<Rightarrow> None
                 | Some (g, closing) \<Rightarrow> Some (take g r, length ''src:url('' + g + closing)))
      else None)"

text \<open>
  The global replacement: \<open>seen\<close> is the text already passed, \<open>skip\<close> the number of
  characters left of the match just replaced.
\<close>

fun replaceAllFontUrls :: "string \<Rightarrow> string \<Rightarrow> nat \<Rightarrow> string \<Rightarrow> string" where
  "replaceAllFontUrls template seen skip [] = []"
| "replaceAllFontUrls template seen (Suc k) (c # cs) =
     replaceAllFontUrls template (seen @ [c]) k cs"
| "replaceAllFontUrls template seen 0 (c # cs) =
     (case matchFontUrlAt (c # cs) of
        None \<Rightarrow> c # replaceAllFontUrls template (seen @ [c]) 0 cs
      | Some (captured, matchLength) \<Rightarrow>
          expandTemplate template (take matchLength (c # cs)) captured seen
            (drop matchLength (c # cs))
          @ replaceAllFontUrls template (seen @ [c]) (matchLength - 1) cs)"

text \<open>
  \<^verbatim>\<open>makeFontStylesheet\<close> (lines 948-970): what is written into the style element
  \<open>fontCssStyleSheet\<close> of the main document when the request succeeds; nothing happens
  when it fails.
\<close>

definition makeFontStylesheet :: "network \<Rightarrow> string \<Rightarrow> string option" where
  "makeFontStylesheet net href =
     (case httpget net href of
        None \<Rightarrow> None
      | Some result \<Rightarrow>
          let fontPrefix = substring href 0 (int (length href) - int (length ''/fonts.css''))
          in Some (replaceAllFontUrls (''src:url('' @ [CHR 0x27] @ fontPrefix @ ''/$1'' @ [CHR 0x27] @ '')'')
                     [] 0 (responseData result)))"

subsection \<open>The combined style sheet\<close>

text \<open>
  The loop over the links (lines 987-996): the requests pushed to \<open>promises\<close>, each with
  its outcome, and the addresses handed to \<^verbatim>\<open>makeFontStylesheet\<close>.
\<close>

fun collectRequests :: "network \<Rightarrow> string \<Rightarrow> node list \<Rightarrow> response option list \<times> string list" where
  "collectRequests net bookPrefix [] = ([], [])"
| "collectRequests net bookPrefix (link # links) =
     (let fullHref = fullUrl bookPrefix (getAttribute link ''href'');
          (promises, fontHrefs) = collectRequests net bookPrefix links
      in if endsWith fullHref ''/fonts.css'' then (promises, fullHref # fontHrefs)
         else (httpget net fullHref # promises, fontHrefs))"

text \<open>The body of \<^verbatim>\<open>results.forEach\<close> (lines 1028-1043) for the combined string.\<close>

definition addResult :: "string \<Rightarrow> response option \<Rightarrow> string" where
  "addResult combinedStyle result =
     (case result of
        None \<Rightarrow> combinedStyle
      | Some r \<Rightarrow> if responseData r \<noteq> '''' then combinedStyle @ responseData r else combinedStyle)"

text \<open>
  \<^verbatim>\<open>assembleStyleSheets\<close> (lines 978-1051), once every request is settled. The promise of
  the legacy question handler, \<^verbatim>\<open>getPromiseForAnyQuizCss()\<close>, is a parameter: there is
  none (\<open>None\<close>), or it is rejected or fulfilled like any other request. The outcome is
  the new state, the texts written to the font style element (one per successful request,
  in the order of the links; in the browser the last request to finish is the one that
  stays), and the style sheets passed to \<^verbatim>\<open>setLanguage2And3\<close>.
\<close>

record styleOutcome =
  newState :: IState
  fontStyleSheets :: "string list"
  languageStyleSheets :: "string list"
  stylesInstalledCalls :: nat

definition assembleStyleSheets ::
  "network \<Rightarrow> string \<Rightarrow> response option option \<Rightarrow> node \<Rightarrow> IState \<Rightarrow> styleOutcome" where
  "assembleStyleSheets net bookPrefix quizCss doc st =
     (let (linked, fontHrefs) = collectRequests net bookPrefix (linkElts doc);
          promises = linked @ (case quizCss of None \<Rightarrow> [] | Some p \<Rightarrow> [p]);
          embedded = foldl (\<lambda>combinedStyle styleElt. combinedStyle @ innerText styleElt) ''''
                       (styleElts doc);
          combinedStyle = foldl addResult embedded promises
      in \<lparr> newState = st\<lparr> styleRules := combinedStyle, isLoading := False \<rparr>,
           fontStyleSheets = List.map_filter (makeFontStylesheet net) fontHrefs,
           languageStyleSheets =
             List.map_filter
               (\<lambda>result. case result of
                    None \<Rightarrow> None
                  | Some r \<Rightarrow>
                      if responseData r \<noteq> '''' \<and> endsWith (responseUrl r) ''/settingsCollectionStyles.css''
                      then Some (responseData r) else None)
               promises,
           stylesInstalledCalls = 1 \<rparr>)"

text \<open>A book with an embedded style and two links, and a network that serves both files.\<close>

definition styledBook :: node where
  "styledBook =
     Element ''html'' []
       [Element ''head'' []
          [Element ''style'' [(''type'', ''text/css'')] [TextNode ''p{margin:0}''],
           Element ''link'' [(''rel'', ''stylesheet''), (''href'', ''fonts.css''), (''type'', ''text/css'')] [],
           Element ''link'' [(''rel'', ''stylesheet''), (''href'', ''custom.css''), (''type'', ''text/css'')] [],
           Element ''link'' [(''rel'', ''stylesheet''), (''href'', ''missing.css''), (''type'', ''text/css'')] []],
        Element ''body'' [] []]"

definition bookServer :: network where
  "bookServer u =
     (if u = ''https://host/Book/fonts.css'' then Some ''@font-face{src:url(Andika-R.ttf)}''
      else if u = ''https://host/Book/custom.css'' then Some ''.x{color:red}''
      else if u = ''https://host/Book/quiz.css'' then Some ''.quiz{}''
      else None)"

section \<open>Predicates and examples used in the statements\<close>

text \<open>An element whose \<^verbatim>\<open>class\<close> attribute is the serialization of its token list.\<close>

definition normalized :: "node \<Rightarrow> bool" where
  "normalized n =
     (case getAttribute n ''class'' of None \<Rightarrow> True | Some v \<Rightarrow> v = serializeTokens (parseTokens v))"

text \<open>
  The rule the code applies to one editable child, in the words of the specification with
  the test for the automatic mode as the code makes it: on the first entry only, an empty
  first entry counting as none, and \<open>auto\<close> compared by the collation.
\<close>

definition automaticMode :: "collation \<Rightarrow> string list option \<Rightarrow> bool" where
  "automaticMode localeCompare D =
     (case D of
        None \<Rightarrow> True
      | Some [] \<Rightarrow> True
      | Some (first # others) \<Rightarrow> first = '''' \<or> localeCompare first ''auto'' = 0)"

definition visibilityRule :: "collation \<Rightarrow> string \<Rightarrow> string list option \<Rightarrow> string \<Rightarrow> node \<Rightarrow> bool" where
  "visibilityRule localeCompare lang D c child =
     (if automaticMode localeCompare D
      then lang = c \<or> classList_contains child ''bloom-content2''
           \<or> classList_contains child ''bloom-content3''
      else (lang = c \<and> (''V'' \<in> set (the D) \<or> ''L1'' \<in> set (the D)))
         \<or> (classList_contains child ''bloom-contentNational1''
              \<and> (''N1'' \<in> set (the D) \<or> ''L2'' \<in> set (the D)))
         \<or> (classList_contains child ''bloom-contentNational2''
              \<and> (''N2'' \<in> set (the D) \<or> ''L3'' \<in> set (the D)))
         \<or> lang \<in> set (the D))"

text \<open>
  The rule as the specification words it: the automatic mode applies when no default
  languages are given or when the value is \<open>auto\<close>.
\<close>

definition claimedVisibilityRule :: "string \<Rightarrow> string list option \<Rightarrow> string \<Rightarrow> node \<Rightarrow> bool" where
  "claimedVisibilityRule lang D c child =
     (if D = None \<or> D = Some [] \<or> D = Some [''auto'']
      then lang = c \<or> classList_contains child ''bloom-content2''
           \<or> classList_contains child ''bloom-content3''
      else (lang = c \<and> (''V'' \<in> set (the D) \<or> ''L1'' \<in> set (the D)))
         \<or> (classList_contains child ''bloom-contentNational1''
              \<and> (''N1'' \<in> set (the D) \<or> ''L2'' \<in> set (the D)))
         \<or> (classList_contains child ''bloom-contentNational2''
              \<and> (''N2'' \<in> set (the D) \<or> ''L3'' \<in> set (the D)))
         \<or> lang \<in> set (the D))"

text \<open>An English child marked as the first national language, in two groups.\<close>

definition nationalChild :: node where
  "nationalChild =
     Element ''div'' [(''class'', ''bloom-editable bloom-contentNational1''), (''lang'', ''en'')] []"

definition autoFirstBook :: node where
  "autoFirstBook =
     Element ''html'' []
       [Element ''div'' [(''class'', ''bloom-translationGroup''), (''data-default-languages'', ''auto,N1'')]
          [nationalChild],
        Element ''div'' [(''class'', ''bloom-translationGroup''), (''data-default-languages'', '' N1'')]
          [nationalChild]]"









text \<open>
  A declaration \<open>background-image:url(\<close>quote ... quote\<open>)\<close> opens at the head of a text
  when the text starts with \<open>background-image:url(\<close> and a quote, and a quote followed by
  \<open>)\<close> stands on the rest of that line. \<open>noDeclarationOpens pre rest\<close>: in the text
  \<open>pre @ rest\<close> no declaration opens at a position of \<open>pre\<close>.
\<close>

definition opensDeclaration :: "string \<Rightarrow> bool" where
  "opensDeclaration s =
     (startsWith s ''background-image:url(''
      \<and> (case drop (length ''background-image:url('') s of
            [] \<Rightarrow> False
          | q # r \<Rightarrow>
              isQuoteChar q
              \<and> (sublist [CHR 0x27, CHR '')''] (takeWhile (\<lambda>c. \<not> isLineTerminator c) r)
                 \<or> sublist [CHR 0x22, CHR '')''] (takeWhile (\<lambda>c. \<not> isLineTerminator c) r))))"

fun noDeclarationOpens :: "string \<Rightarrow> string \<Rightarrow> bool" where
  "noDeclarationOpens [] rest = True"
| "noDeclarationOpens (c # cs) rest = (\<not> opensDeclaration (c # cs @ rest) \<and> noDeclarationOpens cs rest)"

text \<open>
  A font style sheet as the specification reads it: references \<open>src:url(\<close>address\<open>)\<close>,
  each with the text that leads to it, and a final text. A reference is written with an
  optional opening quote, an address made of a stem, a dot and an extension, and an optional
  closing quote; made absolute it is \<open>src:url('\<close>prefix\<open>/\<close>address\<open>')\<close>.
\<close>

datatype fontReference = Reference string string string string string

fun referenceText :: "fontReference \<Rightarrow> string" where
  "referenceText (Reference leading openQuote stem extension closeQuote) =
     leading @ ''src:url('' @ openQuote @ stem @ ''.'' @ extension @ closeQuote @ '')''"

fun sheetText :: "fontReference list \<Rightarrow> string \<Rightarrow> string" where
  "sheetText [] final = final"
| "sheetText (r # rs) final = referenceText r @ sheetText rs final"

fun absoluteReference :: "string \<Rightarrow> fontReference \<Rightarrow> string" where
  "absoluteReference fontPrefix (Reference leading openQuote stem extension closeQuote) =
     leading @ ''src:url('' @ [CHR 0x27] @ fontPrefix @ ''/'' @ stem @ ''.'' @ extension
       @ [CHR 0x27] @ '')''"

fun absoluteSheet :: "string \<Rightarrow> fontReference list \<Rightarrow> string \<Rightarrow> string" where
  "absoluteSheet fontPrefix [] final = final"
| "absoluteSheet fontPrefix (r # rs) final =
     absoluteReference fontPrefix r @ absoluteSheet fontPrefix rs final"

text \<open>
  A closing dot is a dot from which the text runs without \<open>)\<close> or quote up to a \<open>)\<close>
  or to a quote followed by \<open>)\<close>. A sheet is well formed when the leading texts hold no
  \<open>src:url(\<close>, the final text holds no \<open>src:url(\<close> that is followed by a \<open>)\<close>, and
  every reference has an address that is a file name: a stem without line break or quote,
  an extension without \<open>)\<close> or quote, the parentheses of the address balanced and no
  \<open>src:url(\<close> in it; and, unless the extension itself holds a line break, no closing
  dot stands on the rest of the line of the reference.
\<close>

definition optionalQuote :: "string \<Rightarrow> bool" where
  "optionalQuote q = (q = [] \<or> q = [CHR 0x27] \<or> q = [CHR 0x22])"

definition closesAfter :: "string \<Rightarrow> bool" where
  "closesAfter s =
     (case dropWhile isGroupTailChar s of
        [] \<Rightarrow> False
      | c # cs \<Rightarrow> c = CHR '')'' \<or> (isQuoteChar c \<and> (case cs of [] \<Rightarrow> False | d # ds \<Rightarrow> d = CHR '')'')))"

fun closingDotOnLine :: "string \<Rightarrow> bool" where
  "closingDotOnLine [] = False"
| "closingDotOnLine (c # cs) =
     (\<not> isLineTerminator c \<and> ((c = CHR ''.'' \<and> closesAfter cs) \<or> closingDotOnLine cs))"

fun balancedFrom :: "nat \<Rightarrow> string \<Rightarrow> bool" where
  "balancedFrom depth [] = (depth = 0)"
| "balancedFrom depth (c # cs) =
     (if c = CHR ''('' then balancedFrom (Suc depth) cs
      else if c = CHR '')'' then 0 < depth \<and> balancedFrom (depth - 1) cs
      else balancedFrom depth cs)"

definition balancedParentheses :: "string \<Rightarrow> bool" where
  "balancedParentheses s = balancedFrom 0 s"

fun mentionsReference :: "string \<Rightarrow> bool" where
  "mentionsReference [] = False"
| "mentionsReference (c # cs) =
     ((startsWith (c # cs) ''src:url('' \<and> CHR '')'' \<in> set cs) \<or> mentionsReference cs)"

fun wellFormedReference :: "fontReference \<Rightarrow> string \<Rightarrow> bool" where
  "wellFormedReference (Reference leading openQuote stem extension closeQuote) following =
     (\<not> sublist ''src:url('' leading
      \<and> optionalQuote openQuote \<and> optionalQuote closeQuote
      \<and> (\<forall>c \<in> set stem. \<not> isLineTerminator c \<and> \<not> isQuoteChar c)
      \<and> (\<forall>c \<in> set extension. isGroupTailChar c)
      \<and> balancedParentheses (stem @ ''.'' @ extension)
      \<and> \<not> sublist ''src:url('' (stem @ ''.'' @ extension)
      \<and> ((\<exists>c \<in> set extension. isLineTerminator c) \<or> \<not> closingDotOnLine following))"

fun wellFormedSheet :: "fontReference list \<Rightarrow> string \<Rightarrow> bool" where
  "wellFormedSheet [] final = (\<not> mentionsReference final)"
| "wellFormedSheet (r # rs) final =
     (wellFormedReference r (sheetText rs final) \<and> wellFormedSheet rs final)"

text \<open>
  A prefix that stands for itself in a replacement text: none of the patterns \<open>$$\<close>,
  \<open>$&\<close>, \<open>$`\<close>, \<open>$'\<close>, \<open>$1\<close> and \<open>$01\<close> begins in it.
\<close>

definition dollarPattern :: "string \<Rightarrow> bool" where
  "dollarPattern s =
     (startsWith s ''$$'' \<or> startsWith s ''$&'' \<or> startsWith s ''$`''
      \<or> startsWith s [CHR ''$'', CHR 0x27] \<or> startsWith s ''$1'' \<or> startsWith s ''$01'')"

fun literalText :: "string \<Rightarrow> bool" where
  "literalText [] = True"
| "literalText (c # cs) = (\<not> dollarPattern (c # cs) \<and> literalText cs)"

text \<open>A network that answers every request with the same data.\<close>

definition constantServer :: "string \<Rightarrow> network" where
  "constantServer d u = Some d"

text \<open>
  The combined string as the specification words it: the embedded style blocks in document
  order, then the linked style sheets that could be fetched, in document order, those
  whose address ends in \<open>/fonts.css\<close> left out.
\<close>

definition claimedCombinedStyle :: "network \<Rightarrow> string \<Rightarrow> node \<Rightarrow> string" where
  "claimedCombinedStyle net bookPrefix doc =
     concat (map innerText (styleElts doc))
     @ concat (map (\<lambda>h. case httpget net h of None \<Rightarrow> '''' | Some r \<Rightarrow> responseData r)
         (filter (\<lambda>h. \<not> endsWith h ''/fonts.css'')
            (map (\<lambda>l. fullUrl bookPrefix (getAttribute l ''href'')) (linkElts doc))))"

section \<open>Rendering window\<close>

lemma renderedPageContent_ready:
  assumes "\<not> isLoading st" "\<not> loadFailed st"
  shows "renderedPageContent (render props st) =
         map (\<lambda>(index, markup). slideContents (renderSlide (showContextPages props) st index markup))
           (enumerate 0 (pages st))"
  using assms by (simp add: render_def comp_def case_prod_unfold)

lemma renderedPageContent_nth:
  assumes "\<not> isLoading st" "\<not> loadFailed st" "i < length (pages st)"
  shows "renderedPageContent (render props st) ! i =
         (if \<bar>int i - currentSwiperIndex st\<bar> < 2
          then Materialized (styleRules st) (''bloomPlayer-page '' @ importedBodyClasses st) (pages st ! i)
          else Placeholder)"
  using assms by (simp add: renderedPageContent_ready renderSlide_def nth_enumerate_eq)

text \<open>
  Claim C7. While \<^verbatim>\<open>isLoading\<close> or \<^verbatim>\<open>loadFailed\<close> holds, \<^verbatim>\<open>render\<close> gives only the
  spinner or the error message and no page content. Otherwise there is one slide per stored
  page, slide \<open>i\<close> holds the stored markup of page \<open>i\<close> exactly when
  \<open>\<bar>i - currentSwiperIndex\<bar> < 2\<close> and is the empty placeholder exactly when not; the same
  holds in the state reached by \<^verbatim>\<open>setIndex k\<close> for every \<open>k\<close>.
\<close>

theorem render_window:
  fixes st :: IState and props :: renderProps and k :: int
  shows "(isLoading st \<or> loadFailed st \<longrightarrow>
            (render props st = LoadingSpinner \<or> render props st = LoadFailedView (loadErrorHtml st))
            \<and> renderedPageContent (render props st) = [])
       \<and> (\<not> isLoading st \<and> \<not> loadFailed st \<longrightarrow>
            length (renderedPageContent (render props st)) = length (pages st)
            \<and> (\<forall>i < length (pages st).
                  (renderedPageContent (render props st) ! i =
                     Materialized (styleRules st) (''bloomPlayer-page '' @ importedBodyClasses st)
                       (pages st ! i)
                   \<longleftrightarrow> \<bar>int i - currentSwiperIndex st\<bar> < 2)
                \<and> (renderedPageContent (render props st) ! i = Placeholder
                   \<longleftrightarrow> \<not> \<bar>int i - currentSwiperIndex st\<bar> < 2)))
       \<and> (\<not> isLoading st \<and> \<not> loadFailed st \<longrightarrow>
            length (renderedPageContent (render props (setIndex k st))) = length (pages st)
            \<and> (\<forall>i < length (pages st).
                  (renderedPageContent (render props (setIndex k st)) ! i =
                     Materialized (styleRules st) (''bloomPlayer-page '' @ importedBodyClasses st)
                       (pages st ! i)
                   \<longleftrightarrow> \<bar>int i - k\<bar> < 2)
                \<and> (renderedPageContent (render props (setIndex k st)) ! i = Placeholder
                   \<longleftrightarrow> \<not> \<bar>int i - k\<bar> < 2)))"
proof (intro conjI impI)
  assume "isLoading st \<or> loadFailed st"
  then show "render props st = LoadingSpinner \<or> render props st = LoadFailedView (loadErrorHtml st)"
    by (auto simp: render_def)
next
  assume "isLoading st \<or> loadFailed st"
  then show "renderedPageContent (render props st) = []"
    by (auto simp: render_def)
next
  assume "\<not> isLoading st \<and> \<not> loadFailed st"
  then show "length (renderedPageContent (render props st)) = length (pages st)"
    by (simp add: renderedPageContent_ready)
next
  assume r: "\<not> isLoading st \<and> \<not> loadFailed st"
  show "\<forall>i < length (pages st).
          (renderedPageContent (render props st) ! i =
             Materialized (styleRules st) (''bloomPlayer-page '' @ importedBodyClasses st)
               (pages st ! i)
           \<longleftrightarrow> \<bar>int i - currentSwiperIndex st\<bar> < 2)
        \<and> (renderedPageContent (render props st) ! i = Placeholder
           \<longleftrightarrow> \<not> \<bar>int i - currentSwiperIndex st\<bar> < 2)"
    using r by (simp add: renderedPageContent_nth)
next
  assume "\<not> isLoading st \<and> \<not> loadFailed st"
  then show "length (renderedPageContent (render props (setIndex k st))) = length (pages st)"
    by (simp add: renderedPageContent_ready setIndex_def)
next
  assume r: "\<not> isLoading st \<and> \<not> loadFailed st"
  define st' where "st' = setIndex k st"
  have s: "\<not> isLoading st'" "\<not> loadFailed st'" "pages st' = pages st"
    "currentSwiperIndex st' = k" "styleRules st' = styleRules st"
    "importedBodyClasses st' = importedBodyClasses st"
    using r by (simp_all add: st'_def setIndex_def)
  have "\<forall>i < length (pages st).
          (renderedPageContent (render props st') ! i =
             Materialized (styleRules st) (''bloomPlayer-page '' @ importedBodyClasses st)
               (pages st ! i)
           \<longleftrightarrow> \<bar>int i - k\<bar> < 2)
        \<and> (renderedPageContent (render props st') ! i = Placeholder
           \<longleftrightarrow> \<not> \<bar>int i - k\<bar> < 2)"
    using renderedPageContent_nth[of st' _ props] s by simp
  then show "\<forall>i < length (pages st).
          (renderedPageContent (render props (setIndex k st)) ! i =
             Materialized (styleRules st) (''bloomPlayer-page '' @ importedBodyClasses st)
               (pages st ! i)
           \<longleftrightarrow> \<bar>int i - k\<bar> < 2)
        \<and> (renderedPageContent (render props (setIndex k st)) ! i = Placeholder
           \<longleftrightarrow> \<not> \<bar>int i - k\<bar> < 2)"
    by (simp add: st'_def)
qed

text \<open>
  The theorem at two concrete states: a ready book of four pages shown at index 1, then
  moved to index 3, and the initial (loading) state.
\<close>

theorem render_window_witness:
  "\<not> isLoading readyState \<and> \<not> loadFailed readyState
   \<and> renderedPageContent (render plainProps readyState) ! 2 = Materialized ''s{}'' ''bloomPlayer-page '' ''p2''
   \<and> renderedPageContent (render plainProps readyState) ! 3 = Placeholder
   \<and> renderedPageContent (render plainProps (setIndex 3 readyState)) ! 1 = Placeholder
   \<and> (isLoading initialState \<or> loadFailed initialState)
   \<and> renderedPageContent (render plainProps initialState) = []"
proof -
  have r: "\<not> isLoading readyState \<and> \<not> loadFailed readyState"
    by (simp add: readyState_def initialState_def)
  have l: "isLoading initialState \<or> loadFailed initialState"
    by (simp add: initialState_def)
  have len: "length (pages readyState) = 4" "pages readyState ! 2 = ''p2''"
    "styleRules readyState = ''s{}''" "importedBodyClasses readyState = []"
    "currentSwiperIndex readyState = 1"
    by (simp_all add: readyState_def initialState_def)
  from render_window[of readyState plainProps 3] r
  have a: "\<forall>i < length (pages readyState).
            (renderedPageContent (render plainProps readyState) ! i =
               Materialized (styleRules readyState)
                 (''bloomPlayer-page '' @ importedBodyClasses readyState) (pages readyState ! i)
             \<longleftrightarrow> \<bar>int i - currentSwiperIndex readyState\<bar> < 2)
          \<and> (renderedPageContent (render plainProps readyState) ! i = Placeholder
             \<longleftrightarrow> \<not> \<bar>int i - currentSwiperIndex readyState\<bar> < 2)"
    and b: "\<forall>i < length (pages readyState).
            (renderedPageContent (render plainProps (setIndex 3 readyState)) ! i =
               Materialized (styleRules readyState)
                 (''bloomPlayer-page '' @ importedBodyClasses readyState) (pages readyState ! i)
             \<longleftrightarrow> \<bar>int i - 3\<bar> < 2)
          \<and> (renderedPageContent (render plainProps (setIndex 3 readyState)) ! i = Placeholder
             \<longleftrightarrow> \<not> \<bar>int i - 3\<bar> < 2)"
    by blast+
  from a[rule_format, of 2] a[rule_format, of 3] b[rule_format, of 1] len
  have "renderedPageContent (render plainProps readyState) ! 2 = Materialized ''s{}'' ''bloomPlayer-page '' ''p2''"
    "renderedPageContent (render plainProps readyState) ! 3 = Placeholder"
    "renderedPageContent (render plainProps (setIndex 3 readyState)) ! 1 = Placeholder"
    by simp_all
  moreover from render_window[of initialState plainProps 0] l
  have "renderedPageContent (render plainProps initialState) = []" by blast
  ultimately show ?thesis using r l by simp
qed

section \<open>Facts about the string methods\<close>

lemma endsWith_iff: "endsWith s t \<longleftrightarrow> (\<exists>p. s = p @ t)"
proof
  assume "endsWith s t"
  then have "drop (length s - length t) s = t" by (simp add: endsWith_def)
  then have "s = take (length s - length t) s @ t"
    using append_take_drop_id[of "length s - length t" s] by simp
  then show "\<exists>p. s = p @ t" ..
next
  assume "\<exists>p. s = p @ t"
  then show "endsWith s t" by (auto simp: endsWith_def)
qed

lemma trim_Nil_D: "trim s = [] \<Longrightarrow> \<forall>c \<in> set s. isJsWhiteSpace c"
proof -
  assume "trim s = []"
  then have "dropWhile isJsWhiteSpace (rev (dropWhile isJsWhiteSpace s)) = []"
    by (simp add: trim_def)
  then have a: "\<forall>c \<in> set (dropWhile isJsWhiteSpace s). isJsWhiteSpace c"
    by (simp add: dropWhile_eq_Nil_conv)
  have "dropWhile isJsWhiteSpace s = []"
  proof (rule ccontr)
    assume n: "dropWhile isJsWhiteSpace s \<noteq> []"
    then have "\<not> isJsWhiteSpace (hd (dropWhile isJsWhiteSpace s))" by (rule hd_dropWhile)
    moreover have "hd (dropWhile isJsWhiteSpace s) \<in> set (dropWhile isJsWhiteSpace s)"
      using n by simp
    ultimately show False using a by blast
  qed
  then show ?thesis by (simp add: dropWhile_eq_Nil_conv)
qed

lemma substring_to_end:
  assumes "0 \<le> k" "int (length s) \<le> e"
  shows "substring s k e = drop (nat k) s"
proof (cases "k \<le> int (length s)")
  case True
  have fs: "min (max k 0) (int (length s)) = k" using True assms by simp
  have fe: "min (max e 0) (int (length s)) = int (length s)" using assms by simp
  have "substring s k e = take (nat (int (length s) - k)) (drop (nat k) s)"
    using True by (simp add: substring_def Let_def fs fe)
  moreover have "length (drop (nat k) s) \<le> nat (int (length s) - k)"
    using True assms by simp
  ultimately show ?thesis by simp
next
  case False
  then have "drop (nat k) s = []" by simp
  moreover have "min (max k 0) (int (length s)) = int (length s)"
    "min (max e 0) (int (length s)) = int (length s)"
    using False assms by simp_all
  then have "substring s k e = []"
    by (simp add: substring_def Let_def)
  ultimately show ?thesis by simp
qed

lemma nat_one_plus: "nat (1 + int n) = Suc n"
  by simp

lemma substring_from_start:
  "0 \<le> k \<Longrightarrow> k \<le> int (length s) \<Longrightarrow> substring s 0 k = take (nat k) s"
  by (auto simp: substring_def Let_def min_def max_def)

lemma lastIndexFrom_bounds: "-1 \<le> lastIndexFrom s t n \<and> lastIndexFrom s t n \<le> int n"
  by (induction n) auto

lemma lastIndexFrom_occurrence:
  "0 \<le> lastIndexFrom s t n \<Longrightarrow> startsWith (drop (nat (lastIndexFrom s t n)) s) t"
proof (induction n)
  case 0
  then show ?case by (auto split: if_splits)
next
  case (Suc n)
  have e: "nat (1 + int n) = Suc n" by simp
  from Suc show ?case by (auto split: if_splits simp: e)
qed

lemma lastIndexOf_snoc: "lastIndexOf (p @ [c]) [c] = int (length p)"
  by (cases "length p") (auto simp: lastIndexOf_def startsWith_def)

lemma startsWith_length: "startsWith s t \<Longrightarrow> length t \<le> length s"
proof -
  assume "startsWith s t"
  then have "length (take (length t) s) = length t" by (simp add: startsWith_def)
  then show ?thesis by simp
qed

lemma lastIndexOf_upper:
  assumes "0 \<le> lastIndexOf s t"
  shows "lastIndexOf s t + int (length t) \<le> int (length s)"
proof -
  have "startsWith (drop (nat (lastIndexOf s t)) s) t"
    using assms lastIndexFrom_occurrence by (simp add: lastIndexOf_def)
  from startsWith_length[OF this] assms lastIndexFrom_bounds[of s t "length s"]
  show ?thesis by (simp add: lastIndexOf_def)
qed

lemma starts_inside_generic:
  assumes "take (length lit) (s @ lit @ x) = lit" "s \<noteq> []" "lit \<noteq> []" "hd lit \<notin> set (tl lit)"
  shows "prefix lit s"
proof (cases "length lit \<le> length s")
  case True
  then have "take (length lit) s = lit" using assms(1) by simp
  then show ?thesis using take_is_prefix[of "length lit" s] by simp
next
  case False
  define k where "k = length s"
  have k: "1 \<le> k" "k < length lit" using False assms(2) by (auto simp: k_def Suc_le_eq)
  have "take (length lit) (s @ lit @ x) ! k = (s @ lit @ x) ! k"
    using k(2) by (rule nth_take)
  also have "\<dots> = hd lit" using assms(3) by (simp add: k_def nth_append hd_conv_nth)
  finally have "lit ! k = hd lit" using assms(1) by simp
  moreover have "lit ! k = tl lit ! (k - 1)"
    using k assms(3) by (cases lit; cases k) auto
  moreover have "k - 1 < length (tl lit)" using k by simp
  ultimately have "hd lit \<in> set (tl lit)"
    by (metis nth_mem)
  with assms(4) show ?thesis by simp
qed

section \<open>Normalising and resolving the book address\<close>

lemma preprocessUrl_strips:
  assumes "preprocessUrl (Some u) = Inr r" "u \<noteq> ''working''"
  shows "\<exists>a b. u = r @ b @ a \<and> (a = '''' \<or> a = ''/'') \<and> (b = '''' \<or> b = ''%2f'')"
proof -
  define u1 where "u1 = (if endsWith u ''/'' then substring u 0 (int (length u) - 1) else u)"
  define u2 where "u2 = (if endsWith u1 ''%2f'' then substring u1 0 (int (length u1) - 3) else u1)"
  from assms have r: "r = u2"
    by (auto simp: preprocessUrl_def Let_def u1_def u2_def split: if_splits)
  have a: "\<exists>a. u = u1 @ a \<and> (a = '''' \<or> a = ''/'')"
  proof (cases "endsWith u ''/''")
    case True
    then obtain p where p: "u = p @ ''/''" by (auto simp: endsWith_iff)
    then have "u1 = p" using True by (simp add: u1_def substring_from_start)
    with p show ?thesis by simp
  next
    case False
    then show ?thesis by (simp add: u1_def)
  qed
  have b: "\<exists>b. u1 = u2 @ b \<and> (b = '''' \<or> b = ''%2f'')"
  proof (cases "endsWith u1 ''%2f''")
    case True
    then obtain p where p: "u1 = p @ ''%2f''" by (auto simp: endsWith_iff)
    then have "u2 = p" using True by (simp add: u2_def substring_from_start)
    with p show ?thesis by simp
  next
    case False
    then show ?thesis by (simp add: u2_def)
  qed
  from a obtain a' where a': "u = u1 @ a'" "a' = '''' \<or> a' = ''/''" by blast
  from b obtain b' where b': "u1 = u2 @ b'" "b' = '''' \<or> b' = ''%2f''" by blast
  have "u = r @ b' @ a'" using a' b' r by simp
  with a'(2) b'(2) show ?thesis by blast
qed

lemma sourceUrl_ending_in_slash:
  "resolveBookUrls (p @ ''/'') = \<lparr> urlOfBookHtmlFile = p @ ''//.htm'', urlPrefix = p @ ''/'' \<rparr>"
proof -
  let ?r = "p @ ''/''"
  have s: "lastIndexOf ?r ''/'' = int (length p)" by (rule lastIndexOf_snoc)
  have e: "lastIndexOf ?r ''%2f'' < int (length p)"
  proof (cases "0 \<le> lastIndexOf ?r ''%2f''")
    case True
    from lastIndexOf_upper[OF this] show ?thesis by simp
  next
    case False
    then show ?thesis by simp
  qed
  have f: "bookFilename ?r = ''''"
    using s e by (simp add: bookFilename_def Let_def substring_to_end)
  show ?thesis
    using f by (simp add: resolveBookUrls_def Let_def endsWith_def)
qed

lemma not_htm_if_last:
  assumes "s \<noteq> []" "last s \<noteq> CHR ''m''"
  shows "\<not> endsWith (drop n s) ''.htm''"
proof
  assume "endsWith (drop n s) ''.htm''"
  then obtain q where q: "drop n s = q @ ''.htm''" by (auto simp: endsWith_iff)
  then have "drop n s \<noteq> []" by simp
  then have "last (drop n s) = last s" by (simp add: last_drop)
  with q assms show False by simp
qed

lemma bookFilename_is_drop: "\<exists>n. bookFilename s = drop n s"
proof -
  have a: "- 1 \<le> lastIndexOf s ''/''" "- 1 \<le> lastIndexOf s ''%2f''"
    using lastIndexFrom_bounds by (simp_all add: lastIndexOf_def)
  show ?thesis
    using a by (auto simp: bookFilename_def Let_def substring_to_end)
qed

lemma sourceUrl_ending_in_upper_encoded_slash:
  assumes "endsWith u ''%2F''"
  shows "resolveBookUrls u =
           \<lparr> urlOfBookHtmlFile = u @ ''/'' @ bookFilename u @ ''.htm'', urlPrefix = u \<rparr>"
proof -
  from assms obtain p where p: "u = p @ ''%2F''" by (auto simp: endsWith_iff)
  obtain n where n: "bookFilename u = drop n u" using bookFilename_is_drop by blast
  have "\<not> endsWith (drop n u) ''.htm''"
    by (rule not_htm_if_last) (simp_all add: p)
  then show ?thesis using n by (simp add: resolveBookUrls_def Let_def)
qed

text \<open>
  Claim C10, amended. \<^verbatim>\<open>preprocessUrl\<close> makes one pass: from an address other than
  the sentinel \<open>working\<close> it removes at most one trailing \<open>/\<close> and then at most one
  trailing lower-case \<open>%2f\<close>. So an address ending in the upper-case \<open>%2F\<close> is returned
  unchanged, an address ending in \<open>//\<close> loses one slash only and still ends in \<open>/\<close>,
  and in both cases the residue is part of the prefix and of the address of the htm file
  that \<^verbatim>\<open>componentDidUpdate\<close> derives. For the sentinel the result is the empty
  address.
\<close>

theorem preprocessUrl_single_pass:
  "(u \<noteq> ''working'' \<and> preprocessUrl (Some u) = Inr r \<longrightarrow>
      (\<exists>a b. u = r @ b @ a \<and> (a = '''' \<or> a = ''/'') \<and> (b = '''' \<or> b = ''%2f'')))
   \<and> (endsWith u ''%2F'' \<longrightarrow>
        preprocessUrl (Some u) = Inr u
        \<and> locateBook (Some u) None = Inr (Some
             \<lparr> urlOfBookHtmlFile = u @ ''/'' @ bookFilename u @ ''.htm'', urlPrefix = u \<rparr>))
   \<and> (endsWith u ''//'' \<longrightarrow>
        (\<exists>p. u = p @ ''//'' \<and> preprocessUrl (Some u) = Inr (p @ ''/'')
           \<and> locateBook (Some u) None = Inr (Some
                \<lparr> urlOfBookHtmlFile = p @ ''//.htm'', urlPrefix = p @ ''/'' \<rparr>)))
   \<and> preprocessUrl (Some ''working'') = Inr ''''"
proof (intro conjI impI)
  assume "u \<noteq> ''working'' \<and> preprocessUrl (Some u) = Inr r"
  then show "\<exists>a b. u = r @ b @ a \<and> (a = '''' \<or> a = ''/'') \<and> (b = '''' \<or> b = ''%2f'')"
    using preprocessUrl_strips by blast
next
  assume e: "endsWith u ''%2F''"
  then obtain p where p: "u = p @ ''%2F''" by (auto simp: endsWith_iff)
  have t: "trim u \<noteq> ''''"
  proof
    assume "trim u = ''''"
    from trim_Nil_D[OF this] have "isJsWhiteSpace CHR ''F''" by (simp add: p)
    then show False by (simp add: isJsWhiteSpace_def)
  qed
  have w: "u \<noteq> ''working''" using p by auto
  have n1: "\<not> endsWith u ''/''" by (simp add: p endsWith_def)
  have n2: "\<not> endsWith u ''%2f''" by (simp add: p endsWith_def)
  show a: "preprocessUrl (Some u) = Inr u"
    using t w n1 n2 by (simp add: preprocessUrl_def)
  have "u \<noteq> ''''" using p by simp
  then show "locateBook (Some u) None = Inr (Some
             \<lparr> urlOfBookHtmlFile = u @ ''/'' @ bookFilename u @ ''.htm'', urlPrefix = u \<rparr>)"
    using a sourceUrl_ending_in_upper_encoded_slash[OF e] by (simp add: locateBook_def)
next
  assume e: "endsWith u ''//''"
  then obtain p where p: "u = p @ ''//''" by (auto simp: endsWith_iff)
  have t: "trim u \<noteq> ''''"
  proof
    assume "trim u = ''''"
    from trim_Nil_D[OF this] have "isJsWhiteSpace CHR ''/''" by (simp add: p)
    then show False by (simp add: isJsWhiteSpace_def)
  qed
  have w: "u \<noteq> ''working''" using p by auto
  have n1: "endsWith u ''/''" by (simp add: p endsWith_def)
  have u1: "substring u 0 (int (length u) - 1) = p @ ''/''"
    by (simp add: p substring_from_start nat_one_plus)
  have n2: "\<not> endsWith (p @ ''/'') ''%2f''" by (simp add: endsWith_def)
  have a: "preprocessUrl (Some u) = Inr (p @ ''/'')"
    using t w n1 n2 u1 by (simp add: preprocessUrl_def Let_def)
  have "locateBook (Some u) None = Inr (Some
                \<lparr> urlOfBookHtmlFile = p @ ''//.htm'', urlPrefix = p @ ''/'' \<rparr>)"
    using a sourceUrl_ending_in_slash[of p] by (simp add: locateBook_def)
  with p a show "\<exists>p. u = p @ ''//'' \<and> preprocessUrl (Some u) = Inr (p @ ''/'')
           \<and> locateBook (Some u) None = Inr (Some
                \<lparr> urlOfBookHtmlFile = p @ ''//.htm'', urlPrefix = p @ ''/'' \<rparr>)"
    by blast
next
  have "trim ''working'' = ''working''" by (simp add: trim_def isJsWhiteSpace_def)
  then show "preprocessUrl (Some ''working'') = Inr ''''" by (simp add: preprocessUrl_def)
qed

text \<open>The theorem at three concrete addresses.\<close>

theorem preprocessUrl_single_pass_witness:
  "endsWith ''https://host/Book%2F'' ''%2F''
   \<and> preprocessUrl (Some ''https://host/Book%2F'') = Inr ''https://host/Book%2F''
   \<and> endsWith ''https://host/Book//'' ''//''
   \<and> preprocessUrl (Some ''https://host/Book//'') = Inr ''https://host/Book/''
   \<and> locateBook (Some ''https://host/Book//'') None = Inr (Some
        \<lparr> urlOfBookHtmlFile = ''https://host/Book//.htm'', urlPrefix = ''https://host/Book/'' \<rparr>)
   \<and> ''x%2f/'' \<noteq> ''working'' \<and> preprocessUrl (Some ''x%2f/'') = Inr ''x''"
proof -
  have a: "endsWith ''https://host/Book%2F'' ''%2F''" by (simp add: endsWith_def)
  have b: "endsWith ''https://host/Book//'' ''//''" by (simp add: endsWith_def)
  have c: "preprocessUrl (Some ''x%2f/'') = Inr ''x''" by code_simp
  from preprocessUrl_single_pass[of "''https://host/Book%2F''" "''''"] a
  have 1: "preprocessUrl (Some ''https://host/Book%2F'') = Inr ''https://host/Book%2F''" by blast
  from preprocessUrl_single_pass[of "''https://host/Book//''" "''''"] b
  obtain p where p: "''https://host/Book//'' = p @ ''//''"
    "preprocessUrl (Some ''https://host/Book//'') = Inr (p @ ''/'')"
    "locateBook (Some ''https://host/Book//'') None = Inr (Some
                \<lparr> urlOfBookHtmlFile = p @ ''//.htm'', urlPrefix = p @ ''/'' \<rparr>)"
    by blast
  from p(1) have "p = ''https://host/Book''" by simp
  with p have 2: "preprocessUrl (Some ''https://host/Book//'') = Inr ''https://host/Book/''"
    "locateBook (Some ''https://host/Book//'') None = Inr (Some
        \<lparr> urlOfBookHtmlFile = ''https://host/Book//.htm'', urlPrefix = ''https://host/Book/'' \<rparr>)"
    by simp_all
  from preprocessUrl_single_pass[of "''x%2f/''" "''x''"] c
  have 3: "\<exists>a b. ''x%2f/'' = ''x'' @ b @ a \<and> (a = '''' \<or> a = ''/'') \<and> (b = '''' \<or> b = ''%2f'')"
    by simp
  show ?thesis using a b c 1 2 by simp
qed

text \<open>
  Claim C10, as stated, at the sentinel: \<^verbatim>\<open>preprocessUrl\<close> returns the empty address,
  so what it removes from \<open>working\<close> is the whole address and not a trailing \<open>/\<close>, a
  trailing \<open>%2f\<close> or both.
\<close>

theorem preprocessUrl_sentinel_counterexample:
  "preprocessUrl (Some ''working'') = Inr ''''
   \<and> ''working'' \<noteq> '''' @ '''' @ ''''
   \<and> ''working'' \<noteq> '''' @ '''' @ ''/''
   \<and> ''working'' \<noteq> '''' @ ''%2f'' @ ''''
   \<and> ''working'' \<noteq> '''' @ ''%2f'' @ ''/''"
  by code_simp

section \<open>The load-failure handler\<close>





















section \<open>The book address without a separator\<close>

lemma resolveBookUrls_scenario:
  "locateBook (Some ''https://host/Book'') None = Inr (Some
     \<lparr> urlOfBookHtmlFile = ''https://host/Book/Book.htm'', urlPrefix = ''https://host/Book'' \<rparr>)"
  by code_simp

text \<open>
  Claim C2, at the address \<open>Book\<close>. Neither \<open>/\<close> nor \<open>%2f\<close> occurs, both
  \<^verbatim>\<open>lastIndexOf\<close> calls return \<open>-1\<close>, and the branch for an encoded slash takes the
  file name from position \<open>-1 + 3\<close>: the book is looked for at \<open>Book/ok.htm\<close>, not at
  \<open>Book/Book.htm\<close>. At \<open>a.htm\<close> the same branch cuts the name to \<open>htm\<close>, so an
  address that ends in \<open>.htm\<close> is taken for a folder.
\<close>

theorem resolveBookUrls_without_separator:
  "preprocessUrl (Some ''Book'') = Inr ''Book''
   \<and> lastIndexOf ''Book'' ''/'' = -1 \<and> lastIndexOf ''Book'' ''%2f'' = -1
   \<and> bookFilename ''Book'' = ''ok''
   \<and> resolveBookUrls ''Book'' = \<lparr> urlOfBookHtmlFile = ''Book/ok.htm'', urlPrefix = ''Book'' \<rparr>
   \<and> resolveBookUrls ''a.htm'' = \<lparr> urlOfBookHtmlFile = ''a.htm/htm.htm'', urlPrefix = ''a.htm'' \<rparr>"
  by code_simp

section \<open>The duration counters\<close>

lemma storeAudioAnalytics_total:
  "totalAudioDuration (storeAudioAnalytics d p) =
     (if jsLess d (Finite 0.001) \<or> Number_isNaN d then totalAudioDuration p
      else jsAdd (totalAudioDuration p) d)"
  by (simp add: storeAudioAnalytics_def Let_def)

lemma storeVideoAnalytics_total:
  "totalVideoDuration (storeVideoAnalytics d p) =
     (if jsLess d (Finite 0.001) then totalVideoDuration p
      else jsAdd (totalVideoDuration p) d)"
  by (simp add: storeVideoAnalytics_def Let_def)

text \<open>
  The audio counter never decreases: from a counter that is a number or \<open>+\<infinity>\<close>, a call
  leaves it unchanged or adds the duration, and the result is at least the old value.
\<close>

lemma storeAudioAnalytics_monotone:
  assumes "totalAudioDuration p = Finite x \<or> totalAudioDuration p = PosInfinity"
  shows "jsGreaterEq (totalAudioDuration (storeAudioAnalytics d p)) (totalAudioDuration p)
       \<and> (totalAudioDuration (storeAudioAnalytics d p) = totalAudioDuration p
          \<or> totalAudioDuration (storeAudioAnalytics d p) = jsAdd (totalAudioDuration p) d)
       \<and> (\<exists>y. totalAudioDuration (storeAudioAnalytics d p) = Finite y
              \<or> totalAudioDuration (storeAudioAnalytics d p) = PosInfinity)"
  using assms by (cases d) (auto simp: storeAudioAnalytics_total Number_isNaN_def)

text \<open>
  Claim C9, at \<^verbatim>\<open>storeVideoAnalytics(NaN)\<close>. The guard \<^verbatim>\<open>duration < 0.001\<close> is false for
  NaN and there is no \<^verbatim>\<open>Number.isNaN\<close> test as in \<^verbatim>\<open>storeAudioAnalytics\<close>: the video
  counter of five seconds becomes NaN, which is neither the old value nor at least the old
  value, and every later call leaves it NaN. The same call on the audio side changes nothing.
\<close>

theorem storeVideoAnalytics_NaN:
  "totalVideoDuration fiveSecondsPlayed = Finite 5
   \<and> totalVideoDuration (storeVideoAnalytics NaN fiveSecondsPlayed) = NaN
   \<and> \<not> jsGreaterEq (totalVideoDuration (storeVideoAnalytics NaN fiveSecondsPlayed))
          (totalVideoDuration fiveSecondsPlayed)
   \<and> totalVideoDuration (storeVideoAnalytics (Finite 2) (storeVideoAnalytics NaN fiveSecondsPlayed)) = NaN
   \<and> totalAudioDuration (storeAudioAnalytics NaN fiveSecondsPlayed) = Finite 5"
  by (simp add: storeVideoAnalytics_total storeAudioAnalytics_total Number_isNaN_def
      fiveSecondsPlayed_def)

section \<open>Splitting and joining\<close>

lemma splitFields_not_Nil: "splitFields sep s \<noteq> []"
  by (induction s) (auto split: list.splits)

lemma splitFields_sep_free: "f \<in> set (splitFields sep s) \<Longrightarrow> c \<in> set f \<Longrightarrow> \<not> sep c"
proof (induction s arbitrary: f)
  case Nil
  then show ?case by simp
next
  case (Cons d ds)
  show ?case
  proof (cases "sep d")
    case True
    with Cons show ?thesis by auto
  next
    case False
    obtain g gs where g: "splitFields sep ds = g # gs"
      using splitFields_not_Nil[of sep ds] by (cases "splitFields sep ds") auto
    with False Cons.prems have "f = d # g \<or> f \<in> set gs" by auto
    then show ?thesis
    proof
      assume "f = d # g"
      with Cons.prems(2) have "c = d \<or> c \<in> set g" by auto
      then show ?thesis using False Cons.IH[of g] g by auto
    next
      assume "f \<in> set gs"
      then show ?thesis using Cons.IH[of f] g Cons.prems(2) by auto
    qed
  qed
qed

lemma splitFields_no_sep: "\<forall>c \<in> set t. \<not> sep c \<Longrightarrow> splitFields sep t = [t]"
  by (induction t) auto

lemma splitFields_append_sep:
  "\<forall>c \<in> set t. \<not> sep c \<Longrightarrow> sep d \<Longrightarrow> splitFields sep (t @ d # rest) = t # splitFields sep rest"
  by (induction t) auto

lemma splitFields_serializeTokens:
  assumes "ts \<noteq> []" "\<forall>t \<in> set ts. \<forall>c \<in> set t. \<not> sep c" "sep CHR '' ''"
  shows "splitFields sep (serializeTokens ts) = ts"
  using assms
proof (induction ts rule: serializeTokens.induct)
  case 1
  then show ?case by simp
next
  case (2 t)
  then show ?case by (simp add: splitFields_no_sep)
next
  case (3 t u ts)
  then have "splitFields sep (serializeTokens (u # ts)) = u # ts" by simp
  moreover have "splitFields sep (t @ CHR '' '' # serializeTokens (u # ts)) = t # splitFields sep (serializeTokens (u # ts))"
    using 3 by (intro splitFields_append_sep) auto
  ultimately show ?case by simp
qed

lemma prefix_sep_free:
  assumes "\<forall>c \<in> set s. \<not> sep c"
  shows "prefix s cs \<longleftrightarrow> prefix s (takeWhile (\<lambda>c. \<not> sep c) cs)"
proof
  assume "prefix s cs"
  from prefix_takeWhile[OF this, of "\<lambda>c. \<not> sep c"] assms
  show "prefix s (takeWhile (\<lambda>c. \<not> sep c) cs)" by (simp add: takeWhile_eq_all_conv[THEN iffD2])
next
  assume "prefix s (takeWhile (\<lambda>c. \<not> sep c) cs)"
  then show "prefix s cs" using takeWhile_is_prefix prefix_order.trans by blast
qed

lemma hd_fields: "hd (splitFields sep s) = takeWhile (\<lambda>c. \<not> sep c) s"
  by (induction s) (auto split: list.splits simp: splitFields_not_Nil)

lemma sublist_fields:
  assumes "\<forall>c \<in> set s. \<not> sep c"
  shows "sublist s v \<longleftrightarrow> (\<exists>f \<in> set (splitFields sep v). sublist s f)"
proof (induction v)
  case Nil
  then show ?case by simp
next
  case (Cons d ds)
  obtain g gs where g: "splitFields sep ds = g # gs"
    using splitFields_not_Nil[of sep ds] by (cases "splitFields sep ds") auto
  have hg: "g = takeWhile (\<lambda>c. \<not> sep c) ds" using hd_fields[of sep ds] g by simp
  show ?case
  proof (cases "sep d")
    case True
    have "prefix s (d # ds) \<longleftrightarrow> s = []"
      using assms True by (cases s) auto
    then show ?thesis using True Cons g by (auto simp: sublist_Cons_right)
  next
    case False
    have p: "prefix s (d # ds) \<longleftrightarrow> prefix s (d # g)"
    proof (cases s)
      case Nil
      then show ?thesis by simp
    next
      case (Cons x xs)
      have "\<forall>c \<in> set xs. \<not> sep c" using assms Cons by simp
      from prefix_sep_free[OF this, of ds] show ?thesis using Cons hg by simp
    qed
    have "sublist s (d # ds) \<longleftrightarrow> prefix s (d # g) \<or> sublist s g \<or> (\<exists>f \<in> set gs. sublist s f)"
      using Cons g p by (auto simp: sublist_Cons_right)
    also have "\<dots> \<longleftrightarrow> sublist s (d # g) \<or> (\<exists>f \<in> set gs. sublist s f)"
      by (auto simp: sublist_Cons_right)
    finally show ?thesis using False g by simp
  qed
qed

lemma set_orderedSet: "set (orderedSet ts) = set ts"
  by (induction ts rule: orderedSet.induct) auto

lemma distinct_orderedSet: "distinct (orderedSet ts)"
  by (induction ts rule: orderedSet.induct) (auto simp: set_orderedSet)

lemma orderedSet_distinct: "distinct ts \<Longrightarrow> orderedSet ts = ts"
proof (induction ts rule: orderedSet.induct)
  case 1
  then show ?case by simp
next
  case (2 t ts)
  then have "filter (\<lambda>u. u \<noteq> t) ts = ts" by (auto simp: filter_id_conv)
  with 2 show ?case by simp
qed

section \<open>Token lists\<close>

lemma validToken_parseTokens: "t \<in> set (parseTokens v) \<Longrightarrow> validToken t"
  using splitFields_sep_free[of t isAsciiWhitespace v]
  by (auto simp: parseTokens_def set_orderedSet validToken_def)

lemma distinct_parseTokens: "distinct (parseTokens v)"
  by (simp add: parseTokens_def distinct_orderedSet)

lemma isAsciiWhitespace_space: "isAsciiWhitespace CHR '' ''"
  by (simp add: isAsciiWhitespace_def)

lemma parseTokens_serializeTokens:
  assumes "distinct ts" "\<forall>t \<in> set ts. validToken t"
  shows "parseTokens (serializeTokens ts) = ts"
proof (cases "ts = []")
  case True
  then show ?thesis by (simp add: parseTokens_def)
next
  case False
  have "splitFields isAsciiWhitespace (serializeTokens ts) = ts"
    using False assms(2) isAsciiWhitespace_space
    by (intro splitFields_serializeTokens) (auto simp: validToken_def)
  moreover have "filter (\<lambda>t. t \<noteq> []) ts = ts"
    using assms(2) by (auto simp: filter_id_conv validToken_def)
  ultimately show ?thesis using assms(1) by (simp add: parseTokens_def orderedSet_distinct)
qed

lemma sublist_parseTokens:
  assumes "validToken s"
  shows "sublist s v \<longleftrightarrow> (\<exists>t \<in> set (parseTokens v). sublist s t)"
proof -
  have "sublist s v \<longleftrightarrow> (\<exists>f \<in> set (splitFields isAsciiWhitespace v). sublist s f)"
    using assms by (intro sublist_fields) (simp add: validToken_def)
  moreover have "sublist s f \<Longrightarrow> f \<noteq> []" for f
    using assms by (auto simp: validToken_def)
  ultimately show ?thesis by (auto simp: parseTokens_def set_orderedSet)
qed

section \<open>Attributes and classList of an element\<close>

lemma map_of_setAttr: "map_of (setAttr as name v) k = (if k = name then Some v else map_of as k)"
  by (induction as name v rule: setAttr.induct) auto

lemma setAttr_same: "map_of as name = Some v \<Longrightarrow> setAttr as name v = as"
  by (induction as name v rule: setAttr.induct) (auto split: if_splits)

lemma getAttribute_setAttribute:
  "getAttribute (setAttribute (Element t as ks) name v) k =
     (if k = name then Some v else getAttribute (Element t as ks) k)"
  by (simp add: getAttribute_def setAttribute_def map_of_setAttr)

lemma writeTokens_Element:
  "\<exists>as'. writeTokens (Element t as ks) ts = Element t as' ks
         \<and> (\<forall>k. k \<noteq> ''class'' \<longrightarrow> map_of as' k = map_of as k)"
  by (auto simp: writeTokens_def setAttribute_def map_of_setAttr)

lemma classList_writeTokens:
  assumes "distinct ts" "\<forall>t \<in> set ts. validToken t"
  shows "classList (writeTokens (Element t as ks) ts) = ts"
  using assms
  by (auto simp: writeTokens_def classList_def getAttribute_setAttribute parseTokens_serializeTokens)

lemma distinct_classList: "distinct (classList n)"
  by (auto simp: classList_def distinct_parseTokens split: option.splits)

lemma validToken_classList: "x \<in> set (classList n) \<Longrightarrow> validToken x"
  by (auto simp: classList_def validToken_parseTokens split: option.splits)

lemma classList_tokenAdd:
  assumes "validToken token"
  shows "classList (tokenAdd (Element t as ks) token) =
           (if token \<in> set (classList (Element t as ks)) then classList (Element t as ks)
            else classList (Element t as ks) @ [token])"
  unfolding tokenAdd_def
  using assms distinct_classList[of "Element t as ks"] validToken_classList[of _ "Element t as ks"]
  by (subst classList_writeTokens) auto

lemma classList_tokenRemove:
  "classList (tokenRemove (Element t as ks) token) =
     filter (\<lambda>x. x \<noteq> token) (classList (Element t as ks))"
  unfolding tokenRemove_def
  using distinct_classList[of "Element t as ks"] validToken_classList[of _ "Element t as ks"]
  by (subst classList_writeTokens) auto

lemma tokenAdd_Element:
  "\<exists>as'. tokenAdd (Element t as ks) token = Element t as' ks
         \<and> (\<forall>k. k \<noteq> ''class'' \<longrightarrow> map_of as' k = map_of as k)"
  unfolding tokenAdd_def by (rule writeTokens_Element)

lemma tokenRemove_Element:
  "\<exists>as'. tokenRemove (Element t as ks) token = Element t as' ks
         \<and> (\<forall>k. k \<noteq> ''class'' \<longrightarrow> map_of as' k = map_of as k)"
  unfolding tokenRemove_def by (rule writeTokens_Element)

lemma normalized_writeTokens:
  assumes "distinct ts" "\<forall>t \<in> set ts. validToken t"
  shows "normalized (writeTokens (Element t as ks) ts)"
  using assms
  by (auto simp: writeTokens_def normalized_def getAttribute_setAttribute parseTokens_serializeTokens)

lemma writeTokens_classList:
  assumes "normalized (Element t as ks)"
  shows "writeTokens (Element t as ks) (classList (Element t as ks)) = Element t as ks"
proof (cases "map_of as ''class''")
  case None
  then show ?thesis by (simp add: writeTokens_def classList_def getAttribute_def)
next
  case (Some v)
  then have "v = serializeTokens (parseTokens v)"
    using assms by (simp add: normalized_def getAttribute_def)
  then show ?thesis
    using Some setAttr_same[OF Some]
    by (simp add: writeTokens_def classList_def getAttribute_def setAttribute_def)
qed

lemma normalized_tokenAdd:
  "validToken token \<Longrightarrow> normalized (tokenAdd (Element t as ks) token)"
  unfolding tokenAdd_def
  using distinct_classList[of "Element t as ks"] validToken_classList[of _ "Element t as ks"]
  by (intro normalized_writeTokens) auto

lemma normalized_tokenRemove: "normalized (tokenRemove (Element t as ks) token)"
  unfolding tokenRemove_def
  using distinct_classList[of "Element t as ks"] validToken_classList[of _ "Element t as ks"]
  by (intro normalized_writeTokens) auto

lemma tokenAdd_present:
  "normalized (Element t as ks) \<Longrightarrow> token \<in> set (classList (Element t as ks)) \<Longrightarrow>
   tokenAdd (Element t as ks) token = Element t as ks"
  by (simp add: tokenAdd_def writeTokens_classList)

lemma tokenRemove_absent:
  assumes "normalized (Element t as ks)" "token \<notin> set (classList (Element t as ks))"
  shows "tokenRemove (Element t as ks) token = Element t as ks"
proof -
  have "filter (\<lambda>x. x \<noteq> token) (classList (Element t as ks)) = classList (Element t as ks)"
    using assms(2) by (auto simp: filter_id_conv)
  then show ?thesis using assms(1) by (simp add: tokenRemove_def writeTokens_classList)
qed

lemma validToken_names:
  "validToken ''bloom-visibility-code-on''" "validToken ''bloom-visibility-code-off''"
  "validToken ''bloom-content1''" "validToken ''swiper-lazy''"
  "validToken ''bloom-translationGroup''"
  "validToken ''Device16x9Landscape''" "validToken ''Device16x9Portrait''"
  by (simp_all add: validToken_def isAsciiWhitespace_def)

section \<open>One editable element\<close>

lemma updateEditable_Element:
  "\<exists>as'. updateEditable lc c D (Element t as ks) = Element t as' ks
         \<and> (\<forall>k. k \<noteq> ''class'' \<longrightarrow> map_of as' k = map_of as k)"
proof -
  define b where "b = shouldNormallyShowEditable lc
       (case getAttribute (Element t as ks) ''lang'' of None \<Rightarrow> '''' | Some l \<Rightarrow> l) (Some D) c (Element t as ks)"
  define d1 where "d1 = (if b then tokenRemove (tokenAdd (Element t as ks) ''bloom-visibility-code-on'')
                       ''bloom-visibility-code-off''
                else tokenRemove (Element t as ks) ''bloom-visibility-code-on'')"
  have 1: "\<exists>as'. d1 = Element t as' ks \<and> (\<forall>k. k \<noteq> ''class'' \<longrightarrow> map_of as' k = map_of as k)"
  proof (cases b)
    case True
    obtain a1 where a1: "tokenAdd (Element t as ks) ''bloom-visibility-code-on'' = Element t a1 ks"
      "\<forall>k. k \<noteq> ''class'' \<longrightarrow> map_of a1 k = map_of as k"
      using tokenAdd_Element by blast
    obtain a2 where a2: "tokenRemove (Element t a1 ks) ''bloom-visibility-code-off'' = Element t a2 ks"
      "\<forall>k. k \<noteq> ''class'' \<longrightarrow> map_of a2 k = map_of a1 k"
      using tokenRemove_Element by blast
    show ?thesis using True a1 a2 by (simp add: d1_def)
  next
    case False
    then show ?thesis using tokenRemove_Element[of t as ks] by (simp add: d1_def)
  qed
  then obtain a1 where a1: "d1 = Element t a1 ks" "\<forall>k. k \<noteq> ''class'' \<longrightarrow> map_of a1 k = map_of as k"
    by blast
  have u: "updateEditable lc c D (Element t as ks) =
        (if getAttribute (Element t as ks) ''lang'' = Some c then tokenAdd d1 ''bloom-content1''
         else tokenRemove d1 ''bloom-content1'')"
    by (simp add: updateEditable_def Let_def b_def d1_def)
  show ?thesis
  proof (cases "getAttribute (Element t as ks) ''lang'' = Some c")
    case True
    obtain a2 where "tokenAdd (Element t a1 ks) ''bloom-content1'' = Element t a2 ks"
      "\<forall>k. k \<noteq> ''class'' \<longrightarrow> map_of a2 k = map_of a1 k"
      using tokenAdd_Element by blast
    then show ?thesis using True u a1 by simp
  next
    case False
    obtain a2 where "tokenRemove (Element t a1 ks) ''bloom-content1'' = Element t a2 ks"
      "\<forall>k. k \<noteq> ''class'' \<longrightarrow> map_of a2 k = map_of a1 k"
      using tokenRemove_Element by blast
    then show ?thesis using False u a1 by simp
  qed
qed

lemma classList_updateEditable:
  assumes e: "e = Element t as ks"
    and b: "b = shouldNormallyShowEditable lc
       (case getAttribute e ''lang'' of None \<Rightarrow> '''' | Some l \<Rightarrow> l) (Some D) c e"
  shows "x \<in> set (classList (updateEditable lc c D e)) \<longleftrightarrow>
          (if x = ''bloom-content1'' then getAttribute e ''lang'' = Some c
           else if x = ''bloom-visibility-code-on'' then b
           else if x = ''bloom-visibility-code-off'' then x \<in> set (classList e) \<and> \<not> b
           else x \<in> set (classList e))"
proof -
  define d1 where "d1 = (if b then tokenRemove (tokenAdd e ''bloom-visibility-code-on'')
                       ''bloom-visibility-code-off''
                else tokenRemove e ''bloom-visibility-code-on'')"
  obtain a0 where a0: "tokenAdd e ''bloom-visibility-code-on'' = Element t a0 ks"
    using tokenAdd_Element e by blast
  have c1: "y \<in> set (classList d1) \<longleftrightarrow>
          (if y = ''bloom-visibility-code-on'' then b
           else if y = ''bloom-visibility-code-off'' then y \<in> set (classList e) \<and> \<not> b
           else y \<in> set (classList e))" for y
  proof (cases b)
    case True
    have "classList d1 = filter (\<lambda>x. x \<noteq> ''bloom-visibility-code-off'')
              (classList (tokenAdd e ''bloom-visibility-code-on''))"
      using True a0 classList_tokenRemove[of t a0 ks] by (simp add: d1_def)
    then show ?thesis
      using True classList_tokenAdd[OF validToken_names(1), of t as ks] e by auto
  next
    case False
    then show ?thesis using classList_tokenRemove[of t as ks] e by (auto simp: d1_def)
  qed
  obtain a1 where a1: "d1 = Element t a1 ks"
  proof (cases b)
    case True
    then show ?thesis using that a0 tokenRemove_Element[of t a0 ks] by (auto simp: d1_def)
  next
    case False
    then show ?thesis using that e tokenRemove_Element[of t as ks] by (auto simp: d1_def)
  qed
  have u: "updateEditable lc c D e =
        (if getAttribute e ''lang'' = Some c then tokenAdd d1 ''bloom-content1''
         else tokenRemove d1 ''bloom-content1'')"
    by (simp add: updateEditable_def Let_def b d1_def)
  show ?thesis
  proof (cases "getAttribute e ''lang'' = Some c")
    case True
    then show ?thesis
      using u a1 classList_tokenAdd[OF validToken_names(3), of t a1 ks] c1[of x] by auto
  next
    case False
    then show ?thesis
      using u a1 classList_tokenRemove[of t a1 ks] c1[of x] by auto
  qed
qed

lemma normalized_updateEditable: "normalized (updateEditable lc c D (Element t as ks))"
proof -
  define b where "b = shouldNormallyShowEditable lc
       (case getAttribute (Element t as ks) ''lang'' of None \<Rightarrow> '''' | Some l \<Rightarrow> l) (Some D) c (Element t as ks)"
  define d1 where "d1 = (if b then tokenRemove (tokenAdd (Element t as ks) ''bloom-visibility-code-on'')
                       ''bloom-visibility-code-off''
                else tokenRemove (Element t as ks) ''bloom-visibility-code-on'')"
  obtain a0 where a0: "tokenAdd (Element t as ks) ''bloom-visibility-code-on'' = Element t a0 ks"
    using tokenAdd_Element by blast
  obtain a1 where a1: "d1 = Element t a1 ks"
  proof (cases b)
    case True
    then show ?thesis using that a0 tokenRemove_Element[of t a0 ks] by (auto simp: d1_def)
  next
    case False
    then show ?thesis using that tokenRemove_Element[of t as ks] by (auto simp: d1_def)
  qed
  have u: "updateEditable lc c D (Element t as ks) =
        (if getAttribute (Element t as ks) ''lang'' = Some c then tokenAdd d1 ''bloom-content1''
         else tokenRemove d1 ''bloom-content1'')"
    by (simp add: updateEditable_def Let_def b_def d1_def)
  show ?thesis
    using u a1 normalized_tokenAdd[OF validToken_names(3), of t a1 ks] normalized_tokenRemove[of t a1 ks]
    by auto
qed

lemma classList_attrs: "classList (Element t as ks) = classList (Element t' as ks')"
  by (simp add: classList_def getAttribute_def)

lemma getAttribute_attrs: "getAttribute (Element t as ks) k = getAttribute (Element t' as ks') k"
  by (simp add: getAttribute_def)

lemma shouldNormallyShowEditable_classes:
  assumes "\<forall>x. x \<notin> {''bloom-content1'', ''bloom-visibility-code-on'', ''bloom-visibility-code-off''}
             \<longrightarrow> (x \<in> set (classList e') \<longleftrightarrow> x \<in> set (classList e))"
  shows "shouldNormallyShowEditable lc lang D c e' = shouldNormallyShowEditable lc lang D c e"
proof -
  have "classList_contains e' ''bloom-content2'' = classList_contains e ''bloom-content2''"
    "classList_contains e' ''bloom-content3'' = classList_contains e ''bloom-content3''"
    "classList_contains e' ''bloom-contentNational1'' = classList_contains e ''bloom-contentNational1''"
    "classList_contains e' ''bloom-contentNational2'' = classList_contains e ''bloom-contentNational2''"
    using assms by (simp_all add: classList_contains_def)
  then show ?thesis
    by (simp add: shouldNormallyShowEditable_def isDivInL2_def isDivInL3_def Let_def
        split: option.splits list.splits)
qed

lemma shouldNormallyShowEditable_attrs:
  "shouldNormallyShowEditable lc lang D c (Element t as ks) =
   shouldNormallyShowEditable lc lang D c (Element t' as ks')"
  by (rule shouldNormallyShowEditable_classes) (simp add: classList_attrs[of t as ks t' ks'])

lemma updateEditable_idem:
  "updateEditable lc c D (updateEditable lc c D (Element t as ks)) =
   updateEditable lc c D (Element t as ks)"
proof -
  let ?e = "Element t as ks"
  define b where "b = shouldNormallyShowEditable lc
       (case getAttribute ?e ''lang'' of None \<Rightarrow> '''' | Some l \<Rightarrow> l) (Some D) c ?e"
  obtain as' where e': "updateEditable lc c D ?e = Element t as' ks"
    and oth: "\<forall>k. k \<noteq> ''class'' \<longrightarrow> map_of as' k = map_of as k"
    using updateEditable_Element by blast
  let ?e' = "Element t as' ks"
  have cl: "x \<in> set (classList ?e') \<longleftrightarrow>
          (if x = ''bloom-content1'' then getAttribute ?e ''lang'' = Some c
           else if x = ''bloom-visibility-code-on'' then b
           else if x = ''bloom-visibility-code-off'' then x \<in> set (classList ?e) \<and> \<not> b
           else x \<in> set (classList ?e))" for x
    using classList_updateEditable[OF refl b_def, of x] e' by simp
  have n: "normalized ?e'" using normalized_updateEditable[of lc c D t as ks] e' by simp
  have lang: "getAttribute ?e' ''lang'' = getAttribute ?e ''lang''"
    using oth by (simp add: getAttribute_def)
  have "shouldNormallyShowEditable lc lang (Some D) c ?e' = shouldNormallyShowEditable lc lang (Some D) c ?e"
    for lang
    by (rule shouldNormallyShowEditable_classes) (simp add: cl)
  then have b': "shouldNormallyShowEditable lc
       (case getAttribute ?e' ''lang'' of None \<Rightarrow> '''' | Some l \<Rightarrow> l) (Some D) c ?e' = b"
    by (simp add: lang b_def)
  have d1: "(if b then tokenRemove (tokenAdd ?e' ''bloom-visibility-code-on'') ''bloom-visibility-code-off''
            else tokenRemove ?e' ''bloom-visibility-code-on'') = ?e'"
  proof (cases b)
    case True
    have "tokenAdd ?e' ''bloom-visibility-code-on'' = ?e'"
      using n True cl[of "''bloom-visibility-code-on''"] by (intro tokenAdd_present) auto
    moreover have "tokenRemove ?e' ''bloom-visibility-code-off'' = ?e'"
      using n True cl[of "''bloom-visibility-code-off''"] by (intro tokenRemove_absent) auto
    ultimately show ?thesis using True by simp
  next
    case False
    have "tokenRemove ?e' ''bloom-visibility-code-on'' = ?e'"
      using n False cl[of "''bloom-visibility-code-on''"] by (intro tokenRemove_absent) auto
    then show ?thesis using False by simp
  qed
  have d2: "(if getAttribute ?e' ''lang'' = Some c then tokenAdd ?e' ''bloom-content1''
            else tokenRemove ?e' ''bloom-content1'') = ?e'"
  proof (cases "getAttribute ?e ''lang'' = Some c")
    case True
    have "tokenAdd ?e' ''bloom-content1'' = ?e'"
      using n True cl[of "''bloom-content1''"] by (intro tokenAdd_present) auto
    then show ?thesis using True lang by simp
  next
    case False
    have "tokenRemove ?e' ''bloom-content1'' = ?e'"
      using n False cl[of "''bloom-content1''"] by (intro tokenRemove_absent) auto
    then show ?thesis using False lang by simp
  qed
  have "updateEditable lc c D ?e' =
        (if getAttribute ?e' ''lang'' = Some c
         then tokenAdd (if b then tokenRemove (tokenAdd ?e' ''bloom-visibility-code-on'') ''bloom-visibility-code-off''
            else tokenRemove ?e' ''bloom-visibility-code-on'') ''bloom-content1''
         else tokenRemove (if b then tokenRemove (tokenAdd ?e' ''bloom-visibility-code-on'') ''bloom-visibility-code-off''
            else tokenRemove ?e' ''bloom-visibility-code-on'') ''bloom-content1'')"
    by (simp only: updateEditable_def Let_def b')
  also have "\<dots> = ?e'" by (simp only: d1 d2)
  finally show ?thesis using e' by simp
qed

lemma isTranslationGroup_tokens:
  "isTranslationGroup (Element t as ks) \<longleftrightarrow>
     t = ''div'' \<and> (\<exists>x \<in> set (classList (Element t as ks)). sublist ''bloom-translationGroup'' x)"
proof (cases "map_of as ''class''")
  case None
  then show ?thesis by (simp add: isTranslationGroup_def classList_def getAttribute_def)
next
  case (Some v)
  have "sublist ''bloom-translationGroup'' v \<longleftrightarrow>
        (\<exists>x \<in> set (parseTokens v). sublist ''bloom-translationGroup'' x)"
    by (rule sublist_parseTokens[OF validToken_names(5)])
  then show ?thesis using Some by (simp add: isTranslationGroup_def classList_def getAttribute_def)
qed

lemma not_group_names:
  "\<not> sublist ''bloom-translationGroup'' ''bloom-content1''"
  "\<not> sublist ''bloom-translationGroup'' ''bloom-visibility-code-on''"
  "\<not> sublist ''bloom-translationGroup'' ''bloom-visibility-code-off''"
  by code_simp+

lemma isTranslationGroup_updateEditable:
  assumes "updateEditable lc c D (Element t as ks) = Element t as' ks"
  shows "isTranslationGroup (Element t as' ks') = isTranslationGroup (Element t as ks'')"
proof -
  let ?e = "Element t as ks"
  have cl: "x \<in> set (classList (Element t as' ks)) \<longleftrightarrow>
          (if x = ''bloom-content1'' then getAttribute ?e ''lang'' = Some c
           else if x = ''bloom-visibility-code-on'' then
             shouldNormallyShowEditable lc
               (case getAttribute ?e ''lang'' of None \<Rightarrow> '''' | Some l \<Rightarrow> l) (Some D) c ?e
           else if x = ''bloom-visibility-code-off'' then x \<in> set (classList ?e) \<and>
             \<not> shouldNormallyShowEditable lc
               (case getAttribute ?e ''lang'' of None \<Rightarrow> '''' | Some l \<Rightarrow> l) (Some D) c ?e
           else x \<in> set (classList ?e))" for x
    using classList_updateEditable[OF refl refl, of x lc c D t as ks] assms by simp
  have "(\<exists>x \<in> set (classList (Element t as' ks)). sublist ''bloom-translationGroup'' x)
        \<longleftrightarrow> (\<exists>x \<in> set (classList ?e). sublist ''bloom-translationGroup'' x)"
  proof
    assume "\<exists>x \<in> set (classList (Element t as' ks)). sublist ''bloom-translationGroup'' x"
    then obtain x where x: "x \<in> set (classList (Element t as' ks))" "sublist ''bloom-translationGroup'' x"
      by blast
    from x(2) not_group_names have "x \<noteq> ''bloom-content1''" "x \<noteq> ''bloom-visibility-code-on''"
      "x \<noteq> ''bloom-visibility-code-off''" by auto
    with x(1) cl[of x] have "x \<in> set (classList ?e)" by simp
    with x(2) show "\<exists>x \<in> set (classList ?e). sublist ''bloom-translationGroup'' x" by blast
  next
    assume "\<exists>x \<in> set (classList ?e). sublist ''bloom-translationGroup'' x"
    then obtain x where x: "x \<in> set (classList ?e)" "sublist ''bloom-translationGroup'' x"
      by blast
    from x(2) not_group_names have "x \<noteq> ''bloom-content1''" "x \<noteq> ''bloom-visibility-code-on''"
      "x \<noteq> ''bloom-visibility-code-off''" by auto
    with x(1) cl[of x] have "x \<in> set (classList (Element t as' ks))" by simp
    with x(2) show "\<exists>x \<in> set (classList (Element t as' ks)). sublist ''bloom-translationGroup'' x" by blast
  qed
  then show ?thesis
    using classList_attrs[of t as' ks' t ks] classList_attrs[of t as ks'' t ks]
    by (simp add: isTranslationGroup_tokens)
qed

section \<open>The whole document\<close>

lemma updateGroups_Element:
  "updateGroups lc c (Element t as ks) =
     Element t as (map (\<lambda>k. processChild lc c t as (updateGroups lc c k)) ks)"
  by simp

lemma processChild_Element:
  "\<exists>as'. processChild lc c pt pas (Element t as ks) = Element t as' ks
         \<and> (\<forall>k. k \<noteq> ''class'' \<longrightarrow> map_of as' k = map_of as k)"
  using updateEditable_Element[of lc c _ t as ks] by (auto simp: processChild_def)

lemma processChild_TextNode: "processChild lc c pt pas (TextNode s) = TextNode s"
  by (simp add: processChild_def isEditable_def)

lemma nodeAt_processChild:
  "path \<noteq> [] \<Longrightarrow> nodeAt (processChild lc c pt pas n) path = nodeAt n path"
proof (cases n)
  case (Element t as ks)
  assume "path \<noteq> []"
  then obtain i rest where p: "path = i # rest" by (cases path) auto
  obtain as' where "processChild lc c pt pas (Element t as ks) = Element t as' ks"
    using processChild_Element by blast
  then show ?thesis using Element p by simp
next
  case (TextNode s)
  then show ?thesis by (simp add: processChild_TextNode)
qed

lemma nodeAt_updateGroups_child:
  assumes "nodeAt n path = Some (Element t as ks)" "j < length ks"
  shows "nodeAt (updateGroups lc c n) (path @ [j]) =
           Some (processChild lc c t as (updateGroups lc c (ks ! j)))"
  using assms
proof (induction path arbitrary: n)
  case Nil
  then show ?case by simp
next
  case (Cons i rest)
  then obtain t' as' ks' where n: "n = Element t' as' ks'" "i < length ks'"
    "nodeAt (ks' ! i) rest = Some (Element t as ks)"
    by (cases n) (auto split: if_splits)
  have "nodeAt (updateGroups lc c n) ((i # rest) @ [j]) =
        nodeAt (processChild lc c t' as' (updateGroups lc c (ks' ! i))) (rest @ [j])"
    using n by simp
  also have "\<dots> = nodeAt (updateGroups lc c (ks' ! i)) (rest @ [j])"
    by (rule nodeAt_processChild) simp
  also have "\<dots> = Some (processChild lc c t as (updateGroups lc c (ks ! j)))"
    using Cons.IH[OF n(3) Cons.prems(2)] .
  finally show ?case .
qed

lemma isEditable_attrs: "isEditable (Element t as ks) = isEditable (Element t' as ks')"
  using classList_attrs[of t as ks t' ks'] by (simp add: isEditable_def classList_contains_def)

lemma isTranslationGroup_attrs:
  "isTranslationGroup (Element t as ks) = isTranslationGroup (Element t as ks')"
  by (simp add: isTranslationGroup_def)

lemma dataDefaultLangs_attrs:
  "dataDefaultLangs (Element t as ks) = dataDefaultLangs (Element t' as ks')"
  by (simp add: dataDefaultLangs_def getAttribute_def)

lemma shouldNormallyShowEditable_rule:
  "shouldNormallyShowEditable lc lang D c child = visibilityRule lc lang D c child"
proof (cases D)
  case None
  then show ?thesis by (simp add: shouldNormallyShowEditable_def visibilityRule_def automaticMode_def)
next
  case (Some ds)
  show ?thesis
  proof (cases ds)
    case Nil
    then show ?thesis
      using Some by (simp add: shouldNormallyShowEditable_def visibilityRule_def automaticMode_def)
  next
    case (Cons first others)
    then show ?thesis
      using Some
      by (auto simp: shouldNormallyShowEditable_def visibilityRule_def automaticMode_def Let_def
          isDivInL2_def isDivInL3_def areStringsEqualInvariantCultureIgnoreCase_def)
  qed
qed

lemma processChild_attrs_cong:
  assumes "\<forall>k. k \<noteq> ''class'' \<longrightarrow> map_of as' k = map_of as k"
    and "isTranslationGroup (Element t as' []) = isTranslationGroup (Element t as [])"
  shows "processChild lc c t as' = processChild lc c t as"
proof -
  have "dataDefaultLangs (Element t as' []) = dataDefaultLangs (Element t as [])"
    using assms(1) by (simp add: dataDefaultLangs_def getAttribute_def)
  then show ?thesis using assms(2) by (auto simp: processChild_def fun_eq_iff)
qed

lemma processChild_fixpoint:
  assumes "updateGroups lc c y = y"
  shows "processChild lc c t as (updateGroups lc c (processChild lc c t as y)) =
         processChild lc c t as y"
proof (cases "isTranslationGroup (Element t as []) \<and> isEditable y")
  case False
  then have "processChild lc c t as y = y" by (auto simp: processChild_def)
  then show ?thesis using assms by simp
next
  case True
  then obtain t' a' k' where y: "y = Element t' a' k'"
    by (cases y) (auto simp: isEditable_def)
  define D where "D = dataDefaultLangs (Element t as [])"
  have p: "processChild lc c t as y = updateEditable lc c D y"
    using True by (simp add: processChild_def D_def)
  obtain a'' where e: "updateEditable lc c D (Element t' a' k') = Element t' a'' k'"
    and oth: "\<forall>k. k \<noteq> ''class'' \<longrightarrow> map_of a'' k = map_of a' k"
    using updateEditable_Element by blast
  have g: "isTranslationGroup (Element t' a'' []) = isTranslationGroup (Element t' a' [])"
    using isTranslationGroup_updateEditable[OF e] .
  have pc: "processChild lc c t' a'' = processChild lc c t' a'"
    using oth g by (rule processChild_attrs_cong)
  have "map (\<lambda>k. processChild lc c t' a' (updateGroups lc c k)) k' = k'"
    using assms y by simp
  then have u: "updateGroups lc c (Element t' a'' k') = Element t' a'' k'"
    by (simp add: pc)
  have "processChild lc c t as (Element t' a'' k') = Element t' a'' k'"
  proof (cases "isEditable (Element t' a'' k')")
    case False
    then show ?thesis by (simp add: processChild_def)
  next
    case e2: True
    have "updateEditable lc c D (Element t' a'' k') = Element t' a'' k'"
      using updateEditable_idem[of lc c D t' a' k'] e by simp
    then show ?thesis using e2 True by (simp add: processChild_def D_def)
  qed
  then show ?thesis using p y e u by simp
qed

lemma updateGroups_idem: "updateGroups lc c (updateGroups lc c n) = updateGroups lc c n"
proof (induction n rule: updateGroups.induct)
  case (1 lc c s)
  then show ?case by simp
next
  case (2 lc c t as ks)
  have "processChild lc c t as (updateGroups lc c (processChild lc c t as (updateGroups lc c k))) =
        processChild lc c t as (updateGroups lc c k)" if "k \<in> set ks" for k
    using 2[OF that] by (rule processChild_fixpoint)
  then show ?case by (simp add: comp_def)
qed

text \<open>
  Claim C8. Applying \<^verbatim>\<open>updateDivVisibilityByLangCode\<close> a second time with the same
  active language changes nothing: the document after two applications is the document
  after one, so every editable element carries the same visibility and primary-content
  classes.
\<close>

theorem updateDivVisibilityByLangCode_idempotent:
  "updateDivVisibilityByLangCode lc c (updateDivVisibilityByLangCode lc c htmlElement) =
   updateDivVisibilityByLangCode lc c htmlElement"
proof (cases htmlElement)
  case None
  then show ?thesis by (simp add: updateDivVisibilityByLangCode_def)
next
  case (Some n)
  show ?thesis
  proof (cases n)
    case (TextNode s)
    then show ?thesis using Some by (simp add: updateDivVisibilityByLangCode_def)
  next
    case (Element t as ks)
    then show ?thesis
      using Some by (simp add: updateDivVisibilityByLangCode_def updateGroups_idem comp_def)
  qed
qed

section \<open>The visibility decision\<close>

text \<open>
  Claim C1, as stated, at two groups whose first default-language entry is \<open>auto\<close> or
  empty while a further entry \<open>N1\<close> follows: the code takes the automatic mode and hides
  the national-language child; the rule of the claim, which takes the automatic mode only
  for an empty list or the value \<open>auto\<close>, shows it by its case (b).
\<close>

theorem visibility_first_entry_counterexample:
  "dataDefaultLangs (Element ''div'' [(''class'', ''bloom-translationGroup''),
       (''data-default-languages'', ''auto,N1'')] [nationalChild]) = [''auto'', ''N1'']
   \<and> \<not> shouldNormallyShowEditable caseInsensitiveCompare ''en'' (Some [''auto'', ''N1'']) ''fr'' nationalChild
   \<and> claimedVisibilityRule ''en'' (Some [''auto'', ''N1'']) ''fr'' nationalChild
   \<and> dataDefaultLangs (Element ''div'' [(''class'', ''bloom-translationGroup''),
       (''data-default-languages'', '' N1'')] [nationalChild]) = ['''', ''N1'']
   \<and> \<not> shouldNormallyShowEditable caseInsensitiveCompare ''en'' (Some ['''', ''N1'']) ''fr'' nationalChild
   \<and> claimedVisibilityRule ''en'' (Some ['''', ''N1'']) ''fr'' nationalChild
   \<and> updateDivVisibilityByLangCode caseInsensitiveCompare ''fr'' (Some autoFirstBook) = Some autoFirstBook"
  by code_simp

text \<open>
  Claim C1, amended. The decision of \<^verbatim>\<open>shouldNormallyShowEditable\<close> is the rule of the
  specification, with the automatic mode taken when the list of default languages is
  missing or empty, or when its first entry is empty or compares equal to \<open>auto\<close>
  (other entries are then ignored). After \<^verbatim>\<open>updateDivVisibilityByLangCode\<close> with a
  non-empty active language \<open>c\<close>, every editable child of every translation group below
  the root carries \<open>bloom-visibility-code-on\<close> exactly when the rule shows it, and
  \<open>bloom-content1\<close> exactly when its \<open>lang\<close> attribute is \<open>c\<close>.
\<close>

theorem visibility_decision:
  assumes "c \<noteq> ''''"
    and "nodeAt htmlElement (i # path) = Some grp"
    and "isTranslationGroup grp"
    and "j < length (childNodes grp)"
    and "isEditable (childNodes grp ! j)"
  shows "shouldNormallyShowEditable lc lang D c el = visibilityRule lc lang D c el
       \<and> (\<exists>h' child'.
             updateDivVisibilityByLangCode lc c (Some htmlElement) = Some h'
             \<and> nodeAt h' (i # path @ [j]) = Some child'
             \<and> tagName child' = tagName (childNodes grp ! j)
             \<and> getAttribute child' ''lang'' = getAttribute (childNodes grp ! j) ''lang''
             \<and> (classList_contains child' ''bloom-visibility-code-on'' \<longleftrightarrow>
                  visibilityRule lc
                    (case getAttribute (childNodes grp ! j) ''lang'' of None \<Rightarrow> '''' | Some l \<Rightarrow> l)
                    (Some (dataDefaultLangs grp)) c (childNodes grp ! j))
             \<and> (classList_contains child' ''bloom-content1'' \<longleftrightarrow>
                  getAttribute (childNodes grp ! j) ''lang'' = Some c))"
proof
  show "shouldNormallyShowEditable lc lang D c el = visibilityRule lc lang D c el"
    by (rule shouldNormallyShowEditable_rule)
next
  obtain t as ks where h: "htmlElement = Element t as ks" "i < length ks"
    "nodeAt (ks ! i) path = Some grp"
    using assms(2) by (cases htmlElement) (auto split: if_splits)
  obtain gt gas gks where g: "grp = Element gt gas gks"
    using assms(3) by (cases grp) (auto simp: isTranslationGroup_def)
  obtain ct cas cks where ch: "gks ! j = Element ct cas cks"
    using assms(5) g by (cases "gks ! j") (auto simp: isEditable_def)
  define h' where "h' = Element t as (map (updateGroups lc c) ks)"
  have r: "updateDivVisibilityByLangCode lc c (Some htmlElement) = Some h'"
    using assms(1) h by (simp add: updateDivVisibilityByLangCode_def h'_def)
  define cks' where "cks' = map (\<lambda>k. processChild lc c ct cas (updateGroups lc c k)) cks"
  have uc: "updateGroups lc c (gks ! j) = Element ct cas cks'"
    using ch by (simp add: cks'_def)
  define child' where "child' = updateEditable lc c (dataDefaultLangs grp) (Element ct cas cks')"
  have "nodeAt h' (i # path @ [j]) = nodeAt (updateGroups lc c (ks ! i)) (path @ [j])"
    using h by (simp add: h'_def)
  also have "\<dots> = Some (processChild lc c gt gas (updateGroups lc c (gks ! j)))"
    using nodeAt_updateGroups_child[of "ks ! i" path gt gas gks j lc c] h(3) g assms(4) by simp
  also have "processChild lc c gt gas (updateGroups lc c (gks ! j)) = child'"
  proof -
    have "isTranslationGroup (Element gt gas [])"
      using assms(3) g isTranslationGroup_attrs[of gt gas "[]" gks] by simp
    moreover have "isEditable (Element ct cas cks')"
      using assms(5) g ch isEditable_attrs[of ct cas cks' ct cks] by simp
    moreover have "dataDefaultLangs (Element gt gas []) = dataDefaultLangs grp"
      using g dataDefaultLangs_attrs[of gt gas "[]" gt gks] by simp
    ultimately show ?thesis by (simp add: processChild_def uc child'_def)
  qed
  finally have n: "nodeAt h' (i # path @ [j]) = Some child'" .
  obtain as' where e: "child' = Element ct as' cks'"
    and oth: "\<forall>k. k \<noteq> ''class'' \<longrightarrow> map_of as' k = map_of cas k"
    using updateEditable_Element[of lc c "dataDefaultLangs grp" ct cas cks'] child'_def by auto
  have tag: "tagName child' = tagName (childNodes grp ! j)"
    using e g ch by simp
  have lang: "getAttribute child' ''lang'' = getAttribute (childNodes grp ! j) ''lang''"
    using e oth g ch by (simp add: getAttribute_def)
  have la: "getAttribute (Element ct cas cks') ''lang'' = getAttribute (childNodes grp ! j) ''lang''"
    using g ch by (simp add: getAttribute_def)
  have sh: "shouldNormallyShowEditable lc l (Some (dataDefaultLangs grp)) c (Element ct cas cks')
          = visibilityRule lc l (Some (dataDefaultLangs grp)) c (childNodes grp ! j)" for l
    using shouldNormallyShowEditable_attrs[of lc l "Some (dataDefaultLangs grp)" c ct cas cks' ct cks]
      g ch by (simp add: shouldNormallyShowEditable_rule)
  have on: "classList_contains child' ''bloom-visibility-code-on'' \<longleftrightarrow>
                  visibilityRule lc
                    (case getAttribute (childNodes grp ! j) ''lang'' of None \<Rightarrow> '''' | Some l \<Rightarrow> l)
                    (Some (dataDefaultLangs grp)) c (childNodes grp ! j)"
    using classList_updateEditable[OF refl refl, of "''bloom-visibility-code-on''" lc c
        "dataDefaultLangs grp" ct cas cks']
    by (simp add: classList_contains_def child'_def la sh)
  have c1: "classList_contains child' ''bloom-content1'' \<longleftrightarrow>
                  getAttribute (childNodes grp ! j) ''lang'' = Some c"
    using classList_updateEditable[OF refl refl, of "''bloom-content1''" lc c
        "dataDefaultLangs grp" ct cas cks']
    by (simp add: classList_contains_def child'_def la)
  show "\<exists>h' child'.
             updateDivVisibilityByLangCode lc c (Some htmlElement) = Some h'
             \<and> nodeAt h' (i # path @ [j]) = Some child'
             \<and> tagName child' = tagName (childNodes grp ! j)
             \<and> getAttribute child' ''lang'' = getAttribute (childNodes grp ! j) ''lang''
             \<and> (classList_contains child' ''bloom-visibility-code-on'' \<longleftrightarrow>
                  visibilityRule lc
                    (case getAttribute (childNodes grp ! j) ''lang'' of None \<Rightarrow> '''' | Some l \<Rightarrow> l)
                    (Some (dataDefaultLangs grp)) c (childNodes grp ! j))
             \<and> (classList_contains child' ''bloom-content1'' \<longleftrightarrow>
                  getAttribute (childNodes grp ! j) ''lang'' = Some c)"
    using r n tag lang on c1 by blast
qed

text \<open>
  The theorem at the scenario: children \<open>en\<close> and \<open>fr\<close>, default languages \<open>V\<close>,
  active language \<open>fr\<close>. The French child gets both classes, the English child neither.
\<close>

theorem visibility_decision_witness:
  "\<exists>h' en' fr'.
     updateDivVisibilityByLangCode caseInsensitiveCompare ''fr'' (Some scenarioBook) = Some h'
     \<and> nodeAt h' [0, 0, 0] = Some en' \<and> nodeAt h' [0, 0, 1] = Some fr'
     \<and> classList_contains fr' ''bloom-visibility-code-on''
     \<and> classList_contains fr' ''bloom-content1''
     \<and> \<not> classList_contains en' ''bloom-visibility-code-on''
     \<and> \<not> classList_contains en' ''bloom-content1''"
proof -
  define grp where "grp = Element ''div''
     [(''class'', ''bloom-translationGroup''), (''data-default-languages'', ''V'')]
     [englishChild, frenchChild]"
  have c: "''fr'' \<noteq> ''''" by simp
  have p: "nodeAt scenarioBook (0 # [0]) = Some grp"
    by (simp add: scenarioBook_def grp_def)
  have g: "isTranslationGroup grp" unfolding grp_def by code_simp
  have l: "0 < length (childNodes grp)" "1 < length (childNodes grp)"
    by (simp_all add: grp_def)
  have k: "childNodes grp ! 0 = englishChild" "childNodes grp ! 1 = frenchChild"
    by (simp_all add: grp_def)
  have e: "isEditable englishChild" "isEditable frenchChild" by code_simp+
  have D: "dataDefaultLangs grp = [''V'']" unfolding grp_def by code_simp
  have la: "getAttribute englishChild ''lang'' = Some ''en''"
    "getAttribute frenchChild ''lang'' = Some ''fr''"
    by (simp_all add: englishChild_def frenchChild_def getAttribute_def)
  have v: "\<not> shouldNormallyShowEditable caseInsensitiveCompare ''en'' (Some [''V'']) ''fr'' englishChild"
    "shouldNormallyShowEditable caseInsensitiveCompare ''fr'' (Some [''V'']) ''fr'' frenchChild"
    by code_simp+
  have e': "isEditable (childNodes grp ! 0)" "isEditable (childNodes grp ! 1)"
    using e k by simp_all
  from visibility_decision[OF c p g l(1) e'(1), of caseInsensitiveCompare "''''" None englishChild,
      THEN conjunct2] k(1)
  obtain h1 en' where 1:
    "updateDivVisibilityByLangCode caseInsensitiveCompare ''fr'' (Some scenarioBook) = Some h1"
    "nodeAt h1 [0, 0, 0] = Some en'"
    "classList_contains en' ''bloom-visibility-code-on'' \<longleftrightarrow>
       visibilityRule caseInsensitiveCompare ''en'' (Some [''V'']) ''fr'' englishChild"
    "classList_contains en' ''bloom-content1'' \<longleftrightarrow> Some ''en'' = Some ''fr''"
    by (auto simp: la D)
  from visibility_decision[OF c p g l(2) e'(2), of caseInsensitiveCompare "''''" None englishChild,
      THEN conjunct2] k(2)
  obtain h2 fr' where 2:
    "updateDivVisibilityByLangCode caseInsensitiveCompare ''fr'' (Some scenarioBook) = Some h2"
    "nodeAt h2 [0, 0, 1] = Some fr'"
    "classList_contains fr' ''bloom-visibility-code-on'' \<longleftrightarrow>
       visibilityRule caseInsensitiveCompare ''fr'' (Some [''V'']) ''fr'' frenchChild"
    "classList_contains fr' ''bloom-content1'' \<longleftrightarrow> Some ''fr'' = Some ''fr''"
    by (auto simp: la D)
  have "h2 = h1" using 1(1) 2(1) by simp
  with 1 2 v show ?thesis
    by (auto simp: shouldNormallyShowEditable_rule[symmetric])
qed

text \<open>The second application changes nothing at the scenario, where the first one did.\<close>

theorem updateDivVisibilityByLangCode_idempotent_witness:
  "updateDivVisibilityByLangCode caseInsensitiveCompare ''fr''
     (updateDivVisibilityByLangCode caseInsensitiveCompare ''fr'' (Some scenarioBook)) =
   updateDivVisibilityByLangCode caseInsensitiveCompare ''fr'' (Some scenarioBook)
   \<and> updateDivVisibilityByLangCode caseInsensitiveCompare ''fr'' (Some scenarioBook) \<noteq> Some scenarioBook"
proof -
  have "updateDivVisibilityByLangCode caseInsensitiveCompare ''fr'' (Some scenarioBook) \<noteq> Some scenarioBook"
    by code_simp
  with updateDivVisibilityByLangCode_idempotent[of caseInsensitiveCompare "''fr''" "Some scenarioBook"]
  show ?thesis by simp
qed

section \<open>The size class of a page\<close>

lemma lazyScan_chars:
  assumes "lazyScan consumed rest = Some found" "\<forall>c \<in> set consumed. \<not> isJsWhiteSpace c"
  shows "found \<noteq> [] \<and> (\<forall>c \<in> set found. \<not> isJsWhiteSpace c)"
  using assms
proof (induction consumed rest rule: lazyScan.induct)
  case (1 consumed)
  then show ?case by simp
next
  case (2 consumed c cs)
  have w: "\<forall>c \<in> set ''Portrait''. \<not> isJsWhiteSpace c" "\<forall>c \<in> set ''Landscape''. \<not> isJsWhiteSpace c"
    by (simp_all add: isJsWhiteSpace_def)
  define P where "P \<longleftrightarrow> startsWith (c # cs) ''Portrait'' \<and> boundaryBefore (drop 8 (c # cs))"
  define L where "L \<longleftrightarrow> startsWith (c # cs) ''Landscape'' \<and> boundaryBefore (drop 9 (c # cs))"
  have eq: "lazyScan consumed (c # cs) =
     (if P then Some (consumed @ ''Portrait'')
      else if L then Some (consumed @ ''Landscape'')
      else if isJsWhiteSpace c then None
      else lazyScan (consumed @ [c]) cs)"
    by (simp only: lazyScan.simps P_def L_def)
  show ?case
  proof (cases P)
    case True
    then have "found = consumed @ ''Portrait''" using "2.prems"(1) eq by simp
    then show ?thesis using "2.prems"(2) w(1) by auto
  next
    case nP: False
    show ?thesis
    proof (cases L)
      case True
      then have "found = consumed @ ''Landscape''" using "2.prems"(1) eq nP by simp
      then show ?thesis using "2.prems"(2) w(2) by auto
    next
      case nL: False
      have ws: "\<not> isJsWhiteSpace c" and r: "lazyScan (consumed @ [c]) cs = Some found"
        using "2.prems"(1) eq nP nL by (auto split: if_splits)
      have "\<forall>d \<in> set (consumed @ [c]). \<not> isJsWhiteSpace d" using "2.prems"(2) ws by auto
      from "2.IH"[OF nP[unfolded P_def] nL[unfolded L_def] ws r this] show ?thesis .
    qed
  qed
qed

lemma searchSizeClass_chars:
  "searchSizeClass prevIsWord s = Some found \<Longrightarrow>
   found \<noteq> [] \<and> (\<forall>c \<in> set found. \<not> isJsWhiteSpace c)"
proof (induction prevIsWord s rule: searchSizeClass.induct)
  case (1 prevIsWord)
  then show ?case by simp
next
  case (2 prevIsWord c cs)
  show ?case
  proof (cases "prevIsWord \<noteq> isWordChar c")
    case True
    show ?thesis
    proof (cases "lazyScan [] (c # cs)")
      case None
      then show ?thesis using 2 True by simp
    next
      case (Some f)
      then have "found = f" using "2.prems" True by simp
      with lazyScan_chars[OF Some] show ?thesis by simp
    qed
  next
    case False
    then show ?thesis using 2 by simp
  qed
qed

lemma ascii_is_js_whitespace: "isAsciiWhitespace c \<Longrightarrow> isJsWhiteSpace c"
  by (auto simp: isAsciiWhitespace_def isJsWhiteSpace_def)

lemma validToken_getPageSizeClass:
  assumes "getPageSizeClass page \<noteq> ''''"
  shows "validToken (getPageSizeClass page)"
proof -
  define v where "v = (case getAttribute page ''class'' of None \<Rightarrow> '''' | Some v \<Rightarrow> v)"
  obtain found where f: "searchSizeClass False v = Some found" "getPageSizeClass page = found"
    using assms by (cases "searchSizeClass False v") (auto simp: getPageSizeClass_def v_def Let_def)
  from searchSizeClass_chars[OF f(1)] show ?thesis
    using f(2) ascii_is_js_whitespace by (auto simp: validToken_def)
qed

lemma checkToken_valid: "validToken token \<Longrightarrow> checkToken token = None"
  by (auto simp: validToken_def checkToken_def)

lemma getPageSizeClass_TextNode: "getPageSizeClass (TextNode s) = ''''"
  by (simp add: getPageSizeClass_def getAttribute_def)

text \<open>
  Claim C5, amended. For a page on which \<^verbatim>\<open>getPageSizeClass\<close> finds a size class,
  \<^verbatim>\<open>setPageSizeClass\<close> returns the flag \<open>landscape\<close>, which is \<open>showLandscape\<close> when the
  book can rotate and otherwise whether the size class found ends in \<open>Landscape\<close>. The
  desired class is \<open>Device16x9Landscape\<close> or \<open>Device16x9Portrait\<close>, or with
  \<open>useOriginalPageSize\<close> the original page class in which the first \<open>Portrait\<close> is
  replaced by \<open>Landscape\<close> (for landscape) or the first \<open>Landscape\<close> by \<open>Portrait\<close>;
  provided that class is a valid token (not empty, no white space), the size class found
  is removed from the page's classes and the desired class is among them, every other
  class and attribute staying as it was.
\<close>

theorem setPageSizeClass_result:
  assumes "getPageSizeClass page \<noteq> ''''"
    and "landscape = (if bookCanRotate then showLandscape
                      else endsWith (getPageSizeClass page) ''Landscape'')"
    and "desired =
           (if useOriginalPageSize then
              (if landscape then replaceFirst ''Portrait'' ''Landscape'' originalPageClass
               else replaceFirst ''Landscape'' ''Portrait'' originalPageClass)
            else (if landscape then ''Device16x9Landscape'' else ''Device16x9Portrait''))"
    and "useOriginalPageSize \<longrightarrow> validToken desired"
  shows "\<exists>page'.
           setPageSizeClass page bookCanRotate showLandscape useOriginalPageSize originalPageClass =
             Inr (page', landscape)
           \<and> tagName page' = tagName page \<and> childNodes page' = childNodes page
           \<and> (\<forall>k. k \<noteq> ''class'' \<longrightarrow> getAttribute page' k = getAttribute page k)
           \<and> (getPageSizeClass page = desired \<longrightarrow> page' = page)
           \<and> (getPageSizeClass page \<noteq> desired \<longrightarrow>
                 \<not> classList_contains page' (getPageSizeClass page)
                 \<and> classList_contains page' desired)
           \<and> (\<forall>x. x \<noteq> getPageSizeClass page \<and> x \<noteq> desired \<longrightarrow>
                 classList_contains page' x = classList_contains page x)"
proof -
  define sc where "sc = getPageSizeClass page"
  obtain t as ks where p: "page = Element t as ks"
    using assms(1) getPageSizeClass_TextNode by (cases page) auto
  have vs: "validToken sc" using assms(1) validToken_getPageSizeClass by (simp add: sc_def)
  have vd: "validToken desired"
    using assms(3,4) validToken_names(6,7) by (auto split: if_splits)
  have d: "desiredPageClass landscape useOriginalPageSize originalPageClass = desired"
    using assms(3) by (simp add: desiredPageClass_def)
  have l: "(if bookCanRotate then showLandscape else endsWith sc ''Landscape'') = landscape"
    using assms(2) by (simp add: sc_def)
  have u: "setPageSizeClass page bookCanRotate showLandscape useOriginalPageSize originalPageClass =
     (if sc \<noteq> desired then
        (case classList_remove page sc of
           Inl e \<Rightarrow> Inl e
         | Inr page1 \<Rightarrow>
             (case classList_add page1 desired of
                Inl e \<Rightarrow> Inl e
              | Inr page2 \<Rightarrow> Inr (page2, landscape)))
      else Inr (page, landscape))"
  proof -
    have "setPageSizeClass page bookCanRotate showLandscape useOriginalPageSize originalPageClass =
     (if sc \<noteq> '''' then
        if sc \<noteq> desired then
        (case classList_remove page sc of
           Inl e \<Rightarrow> Inl e
         | Inr page1 \<Rightarrow>
             (case classList_add page1 desired of
                Inl e \<Rightarrow> Inl e
              | Inr page2 \<Rightarrow> Inr (page2, landscape)))
        else Inr (page, landscape)
      else Inr (page, False))"
      by (simp only: setPageSizeClass_def Let_def sc_def[symmetric] l d)
    then show ?thesis using assms(1) by (simp add: sc_def)
  qed
  show ?thesis
  proof (cases "sc = desired")
    case True
    then have "setPageSizeClass page bookCanRotate showLandscape useOriginalPageSize originalPageClass =
             Inr (page, landscape)"
      using u by simp
    then show ?thesis using True by (simp add: sc_def)
  next
    case False
    obtain a1 where a1: "tokenRemove (Element t as ks) sc = Element t a1 ks"
      "\<forall>k. k \<noteq> ''class'' \<longrightarrow> map_of a1 k = map_of as k"
      using tokenRemove_Element by blast
    obtain a2 where a2: "tokenAdd (Element t a1 ks) desired = Element t a2 ks"
      "\<forall>k. k \<noteq> ''class'' \<longrightarrow> map_of a2 k = map_of a1 k"
      using tokenAdd_Element by blast
    have r: "setPageSizeClass page bookCanRotate showLandscape useOriginalPageSize originalPageClass =
             Inr (Element t a2 ks, landscape)"
      using u False p a1(1) a2(1) checkToken_valid[OF vs] checkToken_valid[OF vd]
      by (simp add: classList_remove_def classList_add_def)
    have c1: "classList (Element t a1 ks) = filter (\<lambda>x. x \<noteq> sc) (classList page)"
      using classList_tokenRemove[of t as ks sc] a1(1) p by simp
    have c2: "set (classList (Element t a2 ks)) = insert desired (set (classList page) - {sc})"
      using classList_tokenAdd[OF vd, of t a1 ks] a2(1) c1 by auto
    have "\<forall>k. k \<noteq> ''class'' \<longrightarrow> getAttribute (Element t a2 ks) k = getAttribute page k"
      using a1(2) a2(2) p by (simp add: getAttribute_def)
    then show ?thesis
      using r False c2 p by (auto simp: sc_def classList_contains_def)
  qed
qed

text \<open>
  The theorem at the scenario: a page of class \<open>Device16x9Portrait\<close> in a book that can
  rotate, landscape requested, the original page size not used.
\<close>

theorem setPageSizeClass_result_witness:
  "getPageSizeClass devicePortraitPage = ''Device16x9Portrait''
   \<and> (\<exists>page'. setPageSizeClass devicePortraitPage True True False ''Device16x9Portrait'' = Inr (page', True)
         \<and> classList_contains page' ''Device16x9Landscape''
         \<and> \<not> classList_contains page' ''Device16x9Portrait''
         \<and> classList_contains page' ''bloom-page'')"
proof -
  have g: "getPageSizeClass devicePortraitPage = ''Device16x9Portrait''" by code_simp
  have n: "getPageSizeClass devicePortraitPage \<noteq> ''''" using g by simp
  have b: "classList_contains devicePortraitPage ''bloom-page''" by code_simp
  from setPageSizeClass_result[OF n refl refl, of False True True "''Device16x9Portrait''"]
  show ?thesis using g b by auto
qed

text \<open>
  Claim C5, as stated, at a page of class \<open>A5Portrait\<close> with \<open>useOriginalPageSize\<close>.
  With the empty original page class (what \<^verbatim>\<open>getPageSizeClass\<close> gives for a first page
  without size class) the desired class is empty and \<^verbatim>\<open>classList.add\<close> throws, so no
  flag is returned. With the original page class \<open>LandscapePortrait\<close> and portrait
  requested, the first \<open>Landscape\<close> is replaced, not the suffix: the page gets
  \<open>PortraitPortrait\<close> where the suffix already matched.
\<close>

theorem setPageSizeClass_original_class_counterexample:
  "getPageSizeClass a5PortraitPage = ''A5Portrait''
   \<and> setPageSizeClass a5PortraitPage True True True '''' = Inl SyntaxError
   \<and> setPageSizeClass a5PortraitPage True False True ''LandscapePortrait'' =
       Inr (Element ''div'' [(''class'', ''bloom-page PortraitPortrait'')] [], False)"
  by code_simp

section \<open>The background-image pattern\<close>

lemma lastClose_None:
  assumes "\<not> sublist [CHR 0x27, CHR '')''] l" "\<not> sublist [CHR 0x22, CHR '')''] l"
  shows "lastClose l = None"
  using assms
proof (induction l)
  case Nil
  then show ?case by simp
next
  case (Cons c cs)
  then have ih: "lastClose cs = None" by (simp add: sublist_Cons_right)
  have "\<not> (isQuoteChar c \<and> (case cs of [] \<Rightarrow> False | d # ds \<Rightarrow> d = CHR '')''))"
  proof
    assume a: "isQuoteChar c \<and> (case cs of [] \<Rightarrow> False | d # ds \<Rightarrow> d = CHR '')'')"
    then obtain ds where "cs = CHR '')'' # ds" by (cases cs) auto
    with a have "prefix [CHR 0x27, CHR '')''] (c # cs) \<or> prefix [CHR 0x22, CHR '')''] (c # cs)"
      by (auto simp: isQuoteChar_def)
    with Cons.prems show False by (auto simp: sublist_Cons_right)
  qed
  with ih show ?case by simp
qed

lemma lastClose_at_quote:
  assumes "isQuoteChar q" "lastClose l = None"
  shows "lastClose (u @ q # CHR '')'' # l) = Some (length u)"
proof (induction u)
  case Nil
  have "lastClose (CHR '')'' # l) = None"
    using assms(2) by (simp add: isQuoteChar_def)
  then show ?case using assms(1) by simp
next
  case (Cons c u)
  then show ?case by simp
qed

lemma matchBackgroundAt_declaration:
  assumes "isQuoteChar q1" "isQuoteChar q2" "\<forall>c \<in> set u. \<not> isLineTerminator c"
    and "lastClose (takeWhile (\<lambda>c. \<not> isLineTerminator c) post) = None"
  shows "matchBackgroundAt (''background-image:url('' @ q1 # u @ q2 # CHR '')'' # post) = Some (u, post)"
proof -
  have q: "\<not> isLineTerminator q2" "\<not> isLineTerminator CHR '')''"
    using assms(2) by (auto simp: isQuoteChar_def isLineTerminator_def)
  have t: "takeWhile (\<lambda>c. \<not> isLineTerminator c) (u @ q2 # CHR '')'' # post) =
           u @ q2 # CHR '')'' # takeWhile (\<lambda>c. \<not> isLineTerminator c) post"
    using assms(3) q by (simp add: takeWhile_append2)
  have l: "lastClose (takeWhile (\<lambda>c. \<not> isLineTerminator c) (u @ q2 # CHR '')'' # post)) = Some (length u)"
    unfolding t using assms(2,4) by (rule lastClose_at_quote)
  show ?thesis
    using assms(1) l by (simp add: matchBackgroundAt_def startsWith_def)
qed

lemma noDeclarationOpens_iff:
  "noDeclarationOpens pre rest \<longleftrightarrow> (\<forall>a b. pre = a @ b \<and> b \<noteq> [] \<longrightarrow> \<not> opensDeclaration (b @ rest))"
proof (induction pre)
  case Nil
  then show ?case by simp
next
  case (Cons c cs)
  show ?case
  proof
    assume h: "noDeclarationOpens (c # cs) rest"
    show "\<forall>a b. c # cs = a @ b \<and> b \<noteq> [] \<longrightarrow> \<not> opensDeclaration (b @ rest)"
    proof (intro allI impI)
      fix a b assume ab: "c # cs = a @ b \<and> b \<noteq> []"
      show "\<not> opensDeclaration (b @ rest)"
      proof (cases a)
        case Nil
        then show ?thesis using ab h by auto
      next
        case (Cons x a')
        then have "cs = a' @ b" using ab by simp
        then show ?thesis using h Cons.IH ab by auto
      qed
    qed
  next
    assume h: "\<forall>a b. c # cs = a @ b \<and> b \<noteq> [] \<longrightarrow> \<not> opensDeclaration (b @ rest)"
    have 1: "\<not> opensDeclaration (c # cs @ rest)" using h[rule_format, of "[]" "c # cs"] by simp
    have "\<forall>a b. cs = a @ b \<and> b \<noteq> [] \<longrightarrow> \<not> opensDeclaration (b @ rest)"
    proof (intro allI impI)
      fix a b assume "cs = a @ b \<and> b \<noteq> []"
      then show "\<not> opensDeclaration (b @ rest)" using h[rule_format, of "c # a" b] by simp
    qed
    then show "noDeclarationOpens (c # cs) rest" using 1 Cons.IH by simp
  qed
qed

lemma matchBackgroundAt_None:
  assumes "\<not> opensDeclaration s"
  shows "matchBackgroundAt s = None"
proof (cases "startsWith s ''background-image:url(''")
  case False
  then show ?thesis by (simp add: matchBackgroundAt_def)
next
  case True
  show ?thesis
  proof (cases "drop (length ''background-image:url('') s")
    case Nil
    then show ?thesis using True by (simp add: matchBackgroundAt_def)
  next
    case (Cons q r)
    show ?thesis
    proof (cases "isQuoteChar q")
      case False
      then show ?thesis using True Cons by (simp add: matchBackgroundAt_def)
    next
      case q: True
      from assms True Cons q
      have "\<not> sublist [CHR 0x27, CHR '')''] (takeWhile (\<lambda>c. \<not> isLineTerminator c) r)"
        "\<not> sublist [CHR 0x22, CHR '')''] (takeWhile (\<lambda>c. \<not> isLineTerminator c) r)"
        by (auto simp: opensDeclaration_def)
      then have "lastClose (takeWhile (\<lambda>c. \<not> isLineTerminator c) r) = None"
        by (rule lastClose_None)
      then show ?thesis using True Cons q by (simp add: matchBackgroundAt_def)
    qed
  qed
qed

lemma execBackgroundImage_first_declaration:
  assumes "isQuoteChar q1" "isQuoteChar q2" "\<forall>c \<in> set u. \<not> isLineTerminator c"
    and "lastClose (takeWhile (\<lambda>c. \<not> isLineTerminator c) post) = None"
    and "noDeclarationOpens pre (''background-image:url('' @ q1 # u @ q2 # CHR '')'' # post)"
  shows "execBackgroundImage (pre @ ''background-image:url('' @ q1 # u @ q2 # CHR '')'' # post) =
           Some (pre, u, post)"
  using assms(5)
proof (induction pre)
  case Nil
  have "matchBackgroundAt (''background-image:url('' @ q1 # u @ q2 # CHR '')'' # post) = Some (u, post)"
    using assms(1-4) by (rule matchBackgroundAt_declaration)
  then show ?case by simp
next
  case (Cons c pre)
  have no: "\<not> opensDeclaration (c # pre @ ''background-image:url('' @ q1 # u @ q2 # CHR '')'' # post)"
    and ns: "noDeclarationOpens pre (''background-image:url('' @ q1 # u @ q2 # CHR '')'' # post)"
    using Cons.prems by simp_all
  have m: "matchBackgroundAt (c # pre @ ''background-image:url('' @ q1 # u @ q2 # CHR '')'' # post) = None"
    using no by (rule matchBackgroundAt_None)
  have "execBackgroundImage ((c # pre) @ ''background-image:url('' @ q1 # u @ q2 # CHR '')'' # post) =
        (case execBackgroundImage (pre @ ''background-image:url('' @ q1 # u @ q2 # CHR '')'' # post) of
             None \<Rightarrow> None
           | Some (before, captured, after) \<Rightarrow> Some (c # before, captured, after))"
    using m by (simp del: append.simps add: append_Cons)
  then show ?case using Cons.IH[OF ns] by simp
qed

section \<open>Rewriting the resource addresses of a page\<close>

lemma nodeAt_mapElements:
  assumes "\<And>t as ks. \<exists>as'. f (Element t as ks) = Element t as' ks"
  shows "nodeAt (mapElements f n) path = map_option (mapElements f) (nodeAt n path)"
proof (induction path arbitrary: n)
  case Nil
  then show ?case by simp
next
  case (Cons i rest)
  show ?case
  proof (cases n)
    case (TextNode s)
    then show ?thesis by simp
  next
    case (Element t as ks)
    obtain as' where "f (Element t as (map (mapElements f) ks)) = Element t as' (map (mapElements f) ks)"
      using assms by blast
    then show ?thesis using Element Cons.IH by simp
  qed
qed

lemma fixSrc_Element:
  "\<exists>as'. fixSrc p (Element t as ks) = Element t as' ks
     \<and> (\<forall>k. map_of as' k =
          (if k = ''src'' then map_option (\<lambda>v. p @ ''/'' @ v) (map_of as ''src'') else map_of as k))"
  by (cases "map_of as ''src''")
     (auto simp: fixSrc_def getAttribute_def setAttribute_def map_of_setAttr fullUrl_def)

lemma fixStyle_Element:
  "\<exists>as'. fixStyle p (Element t as ks) = Element t as' ks
     \<and> map_of as' ''src'' = map_of as ''src''
     \<and> (\<forall>st b c a. map_of as ''style'' = Some st \<and> execBackgroundImage st = Some (b, c, a) \<longrightarrow>
           map_of as' ''style'' = Some (b @ a)
           \<and> map_of as' ''data-background'' = Some (p @ ''/'' @ c)
           \<and> ''swiper-lazy'' \<in> set (classList (Element t as' ks)))"
proof (cases "map_of as ''style''")
  case None
  then show ?thesis by (simp add: fixStyle_def getAttribute_def)
next
  case (Some st)
  show ?thesis
  proof (cases "execBackgroundImage st")
    case None
    then show ?thesis using Some by (simp add: fixStyle_def getAttribute_def)
  next
    case m: (Some r)
    obtain b c a where r: "r = (b, c, a)" by (cases r) auto
    define a1 where "a1 = setAttr (setAttr as ''style'' (b @ a)) ''data-background'' (p @ ''/'' @ c)"
    obtain a2 where a2: "tokenAdd (Element t a1 ks) ''swiper-lazy'' = Element t a2 ks"
      "\<forall>k. k \<noteq> ''class'' \<longrightarrow> map_of a2 k = map_of a1 k"
      using tokenAdd_Element by blast
    have f: "fixStyle p (Element t as ks) = Element t a2 ks"
      using Some m r a2(1)
      by (simp add: fixStyle_def getAttribute_def setAttribute_def a1_def fullUrl_def)
    have "''swiper-lazy'' \<in> set (classList (Element t a2 ks))"
      using classList_tokenAdd[OF validToken_names(4), of t a1 ks] a2(1) by auto
    then show ?thesis
      using f a2(2) Some m r by (auto simp: a1_def map_of_setAttr)
  qed
qed

text \<open>
  Claim C6, amended. \<^verbatim>\<open>fixRelativeUrls\<close> rewrites the descendants of the page element
  (the page element itself keeps its attributes). Every descendant with a \<open>src\<close>
  attribute ends with that attribute equal to the prefix, a slash and the original value.
  Every descendant whose \<open>style\<close> attribute holds a declaration
  \<open>background-image:url(\<close>quote, address, quote\<open>)\<close>, the first one that opens in the
  attribute, its address ending at the first quote followed by \<open>)\<close> and holding no line
  break, with no further quote followed by \<open>)\<close> on the rest of that line, ends with the
  declaration cut out of the style, \<open>data-background\<close> set to the prefix, a slash and the
  address, and the class \<open>swiper-lazy\<close>.
\<close>

theorem fixRelativeUrls_descendants:
  assumes "nodeAt page (i # path) = Some e"
  shows "\<exists>e'. nodeAt (fixRelativeUrls bookPrefix page) (i # path) = Some e'
           \<and> tagName (fixRelativeUrls bookPrefix page) = tagName page
           \<and> attributes (fixRelativeUrls bookPrefix page) = attributes page
           \<and> (\<forall>v. getAttribute e ''src'' = Some v \<longrightarrow>
                 getAttribute e' ''src'' = Some (bookPrefix @ ''/'' @ v))
           \<and> (\<forall>pre q1 u q2 post.
                 getAttribute e ''style'' =
                   Some (pre @ ''background-image:url('' @ [q1] @ u @ [q2] @ '')'' @ post)
                 \<and> isQuoteChar q1 \<and> isQuoteChar q2
                 \<and> noDeclarationOpens pre (''background-image:url('' @ [q1] @ u @ [q2] @ '')'' @ post)
                 \<and> (\<forall>c \<in> set u. \<not> isLineTerminator c)
                 \<and> \<not> sublist [CHR 0x27, CHR '')''] u \<and> \<not> sublist [CHR 0x22, CHR '')''] u
                 \<and> \<not> sublist [CHR 0x27, CHR '')''] (takeWhile (\<lambda>c. \<not> isLineTerminator c) post)
                 \<and> \<not> sublist [CHR 0x22, CHR '')''] (takeWhile (\<lambda>c. \<not> isLineTerminator c) post)
                 \<longrightarrow>
                 getAttribute e' ''style'' = Some (pre @ post)
                 \<and> getAttribute e' ''data-background'' = Some (bookPrefix @ ''/'' @ u)
                 \<and> classList_contains e' ''swiper-lazy'')"
proof -
  obtain t as ks where p: "page = Element t as ks" "i < length ks" "nodeAt (ks ! i) path = Some e"
    using assms by (cases page) (auto split: if_splits)
  let ?F1 = "fixSrc bookPrefix" and ?F2 = "fixStyle bookPrefix"
  have k1: "\<exists>as'. ?F1 (Element t as ks) = Element t as' ks" for t as ks
    using fixSrc_Element[of bookPrefix t as ks] by blast
  have k2: "\<exists>as'. ?F2 (Element t as ks) = Element t as' ks" for t as ks
    using fixStyle_Element[of bookPrefix t as ks] by blast
  have r: "fixRelativeUrls bookPrefix page =
           Element t as (map (\<lambda>k. mapElements ?F2 (mapElements ?F1 k)) ks)"
    using p(1) by (simp add: fixRelativeUrls_def mapDescendants_def comp_def)
  define e' where "e' = mapElements ?F2 (mapElements ?F1 e)"
  have n: "nodeAt (fixRelativeUrls bookPrefix page) (i # path) = Some e'"
    using p(2,3) nodeAt_mapElements[of ?F1, OF k1] nodeAt_mapElements[of ?F2, OF k2]
    by (simp add: r e'_def)
  have root: "tagName (fixRelativeUrls bookPrefix page) = tagName page"
    "attributes (fixRelativeUrls bookPrefix page) = attributes page"
    unfolding r using p(1) by simp_all
  show ?thesis
  proof (cases e)
    case (TextNode s)
    then have "e' = TextNode s" by (simp add: e'_def)
    then show ?thesis using n root TextNode by (simp add: getAttribute_def)
  next
    case (Element et eas eks)
    obtain a1 where a1: "?F1 (Element et eas (map (mapElements ?F1) eks)) =
          Element et a1 (map (mapElements ?F1) eks)"
      "\<forall>k. map_of a1 k =
          (if k = ''src'' then map_option (\<lambda>v. bookPrefix @ ''/'' @ v) (map_of eas ''src'')
           else map_of eas k)"
      using fixSrc_Element by blast
    define ks2 where "ks2 = map (mapElements ?F2) (map (mapElements ?F1) eks)"
    obtain a2 where a2: "?F2 (Element et a1 ks2) = Element et a2 ks2"
      "map_of a2 ''src'' = map_of a1 ''src''"
      "\<forall>st b c a. map_of a1 ''style'' = Some st \<and> execBackgroundImage st = Some (b, c, a) \<longrightarrow>
           map_of a2 ''style'' = Some (b @ a)
           \<and> map_of a2 ''data-background'' = Some (bookPrefix @ ''/'' @ c)
           \<and> ''swiper-lazy'' \<in> set (classList (Element et a2 ks2))"
      using fixStyle_Element by blast
    have e'': "e' = Element et a2 ks2"
      using Element a1(1) a2(1) by (simp add: e'_def ks2_def)
    have src: "getAttribute e ''src'' = Some v \<longrightarrow>
                 getAttribute e' ''src'' = Some (bookPrefix @ ''/'' @ v)" for v
      using Element e'' a1(2) a2(2) by (simp add: getAttribute_def)
    have sty: "getAttribute e' ''style'' = Some (pre @ post)
                 \<and> getAttribute e' ''data-background'' = Some (bookPrefix @ ''/'' @ u)
                 \<and> classList_contains e' ''swiper-lazy''"
      if h: "getAttribute e ''style'' =
                   Some (pre @ ''background-image:url('' @ [q1] @ u @ [q2] @ '')'' @ post)"
        "isQuoteChar q1" "isQuoteChar q2"
        "noDeclarationOpens pre (''background-image:url('' @ [q1] @ u @ [q2] @ '')'' @ post)"
        "\<forall>c \<in> set u. \<not> isLineTerminator c"
        "\<not> sublist [CHR 0x27, CHR '')''] (takeWhile (\<lambda>c. \<not> isLineTerminator c) post)"
        "\<not> sublist [CHR 0x22, CHR '')''] (takeWhile (\<lambda>c. \<not> isLineTerminator c) post)"
      for pre q1 u q2 post
    proof -
      have lc: "lastClose (takeWhile (\<lambda>c. \<not> isLineTerminator c) post) = None"
        using h(6,7) by (rule lastClose_None)
      have no: "noDeclarationOpens pre (''background-image:url('' @ q1 # u @ q2 # CHR '')'' # post)"
        using h(4) by simp
      have x: "execBackgroundImage (pre @ ''background-image:url('' @ q1 # u @ q2 # CHR '')'' # post) =
           Some (pre, u, post)"
        using h(2,3,5) lc no by (rule execBackgroundImage_first_declaration)
      have "map_of a1 ''style'' =
              Some (pre @ ''background-image:url('' @ q1 # u @ q2 # CHR '')'' # post)"
        using h(1) Element a1(2) by (simp add: getAttribute_def)
      with a2(3) x have "map_of a2 ''style'' = Some (pre @ post)
           \<and> map_of a2 ''data-background'' = Some (bookPrefix @ ''/'' @ u)
           \<and> ''swiper-lazy'' \<in> set (classList (Element et a2 ks2))"
        by blast
      then show ?thesis using e'' by (simp add: getAttribute_def classList_contains_def)
    qed
    show ?thesis using n root src sty by blast
  qed
qed

text \<open>
  The theorem at a page with an image, a container with a background among other
  declarations, and an element whose declaration follows an address without quotes, for
  the prefix \<open>https://host/Book\<close>.
\<close>

theorem fixRelativeUrls_descendants_witness:
  "\<exists>img' div' last'.
     nodeAt (fixRelativeUrls ''https://host/Book'' backgroundPage) [0] = Some img'
     \<and> getAttribute img' ''src'' = Some ''https://host/Book/photo.png''
     \<and> nodeAt (fixRelativeUrls ''https://host/Book'' backgroundPage) [1] = Some div'
     \<and> getAttribute div' ''style'' = Some ''color:red;;width:5px''
     \<and> getAttribute div' ''data-background'' = Some ''https://host/Book/a.png''
     \<and> classList_contains div' ''swiper-lazy''
     \<and> nodeAt (fixRelativeUrls ''https://host/Book'' backgroundPage) [3] = Some last'
     \<and> getAttribute last' ''style'' = Some ''background-image:url(x.png);''
     \<and> getAttribute last' ''data-background'' = Some ''https://host/Book/a.png''
     \<and> classList_contains last' ''swiper-lazy''"
proof -
  define img where "img = Element ''img'' [(''src'', ''photo.png'')] []"
  define dv where "dv = Element ''div'' [(''class'', ''bloom-imageContainer''),
                         (''style'', ''color:red;background-image:url('a.png');width:5px'')] []"
  define lst where "lst = Element ''div''
                         [(''style'', ''background-image:url(x.png);background-image:url('a.png')'')] []"
  have p0: "nodeAt backgroundPage (0 # []) = Some img"
    by (simp add: backgroundPage_def img_def)
  have p1: "nodeAt backgroundPage (1 # []) = Some dv"
    by (simp add: backgroundPage_def dv_def)
  have p3: "nodeAt backgroundPage (3 # []) = Some lst"
    by (simp add: backgroundPage_def lst_def)
  have s0: "getAttribute img ''src'' = Some ''photo.png''"
    by (simp add: img_def getAttribute_def)
  have s1: "getAttribute dv ''style'' =
     Some (''color:red;'' @ ''background-image:url('' @ [CHR 0x27] @ ''a.png'' @ [CHR 0x27] @ '')'' @ '';width:5px'')"
    by (simp add: dv_def getAttribute_def)
  have s3: "getAttribute lst ''style'' =
     Some (''background-image:url(x.png);'' @ ''background-image:url('' @ [CHR 0x27] @ ''a.png'' @ [CHR 0x27] @ '')'' @ '''')"
    by (simp add: lst_def getAttribute_def)
  have q: "isQuoteChar CHR 0x27" by (simp add: isQuoteChar_def)
  have n1: "noDeclarationOpens ''color:red;''
              (''background-image:url('' @ [CHR 0x27] @ ''a.png'' @ [CHR 0x27] @ '')'' @ '';width:5px'')"
    by code_simp
  have m1: "noDeclarationOpens ''background-image:url(x.png);''
              (''background-image:url('' @ [CHR 0x27] @ ''a.png'' @ [CHR 0x27] @ '')'' @ '''')"
    by code_simp
  have n2: "\<forall>c \<in> set ''a.png''. \<not> isLineTerminator c" by (simp add: isLineTerminator_def)
  have n4: "\<not> sublist [CHR 0x27, CHR '')''] ''a.png''" "\<not> sublist [CHR 0x22, CHR '')''] ''a.png''"
    by code_simp+
  have t: "takeWhile (\<lambda>c. \<not> isLineTerminator c) '';width:5px'' = '';width:5px''"
    by (simp add: isLineTerminator_def)
  have n3: "\<not> sublist [CHR 0x27, CHR '')''] (takeWhile (\<lambda>c. \<not> isLineTerminator c) '';width:5px'')"
    "\<not> sublist [CHR 0x22, CHR '')''] (takeWhile (\<lambda>c. \<not> isLineTerminator c) '';width:5px'')"
    unfolding t by code_simp+
  have m3: "\<not> sublist [CHR 0x27, CHR '')''] (takeWhile (\<lambda>c. \<not> isLineTerminator c) '''')"
    "\<not> sublist [CHR 0x22, CHR '')''] (takeWhile (\<lambda>c. \<not> isLineTerminator c) '''')"
    by simp_all
  from fixRelativeUrls_descendants[OF p0, of "''https://host/Book''"] s0
  obtain img' where a: "nodeAt (fixRelativeUrls ''https://host/Book'' backgroundPage) [0] = Some img'"
    "getAttribute img' ''src'' = Some (''https://host/Book'' @ ''/'' @ ''photo.png'')"
    by blast
  from fixRelativeUrls_descendants[OF p1, of "''https://host/Book''"]
  obtain div' where b: "nodeAt (fixRelativeUrls ''https://host/Book'' backgroundPage) [1] = Some div'"
    "\<forall>pre q1 u q2 post.
                 getAttribute dv ''style'' =
                   Some (pre @ ''background-image:url('' @ [q1] @ u @ [q2] @ '')'' @ post)
                 \<and> isQuoteChar q1 \<and> isQuoteChar q2
                 \<and> noDeclarationOpens pre (''background-image:url('' @ [q1] @ u @ [q2] @ '')'' @ post)
                 \<and> (\<forall>c \<in> set u. \<not> isLineTerminator c)
                 \<and> \<not> sublist [CHR 0x27, CHR '')''] u \<and> \<not> sublist [CHR 0x22, CHR '')''] u
                 \<and> \<not> sublist [CHR 0x27, CHR '')''] (takeWhile (\<lambda>c. \<not> isLineTerminator c) post)
                 \<and> \<not> sublist [CHR 0x22, CHR '')''] (takeWhile (\<lambda>c. \<not> isLineTerminator c) post)
                 \<longrightarrow>
                 getAttribute div' ''style'' = Some (pre @ post)
                 \<and> getAttribute div' ''data-background'' = Some (''https://host/Book'' @ ''/'' @ u)
                 \<and> classList_contains div' ''swiper-lazy''"
    by blast
  from b(2)[rule_format, of "''color:red;''" "CHR 0x27" "''a.png''" "CHR 0x27" "'';width:5px''"]
    s1 q n1 n2 n3 n4
  have c: "getAttribute div' ''style'' = Some (''color:red;'' @ '';width:5px'')"
    "getAttribute div' ''data-background'' = Some (''https://host/Book'' @ ''/'' @ ''a.png'')"
    "classList_contains div' ''swiper-lazy''"
    by blast+
  from fixRelativeUrls_descendants[OF p3, of "''https://host/Book''"]
  obtain last' where d: "nodeAt (fixRelativeUrls ''https://host/Book'' backgroundPage) [3] = Some last'"
    "\<forall>pre q1 u q2 post.
                 getAttribute lst ''style'' =
                   Some (pre @ ''background-image:url('' @ [q1] @ u @ [q2] @ '')'' @ post)
                 \<and> isQuoteChar q1 \<and> isQuoteChar q2
                 \<and> noDeclarationOpens pre (''background-image:url('' @ [q1] @ u @ [q2] @ '')'' @ post)
                 \<and> (\<forall>c \<in> set u. \<not> isLineTerminator c)
                 \<and> \<not> sublist [CHR 0x27, CHR '')''] u \<and> \<not> sublist [CHR 0x22, CHR '')''] u
                 \<and> \<not> sublist [CHR 0x27, CHR '')''] (takeWhile (\<lambda>c. \<not> isLineTerminator c) post)
                 \<and> \<not> sublist [CHR 0x22, CHR '')''] (takeWhile (\<lambda>c. \<not> isLineTerminator c) post)
                 \<longrightarrow>
                 getAttribute last' ''style'' = Some (pre @ post)
                 \<and> getAttribute last' ''data-background'' = Some (''https://host/Book'' @ ''/'' @ u)
                 \<and> classList_contains last' ''swiper-lazy''"
    by blast
  from d(2)[rule_format, of "''background-image:url(x.png);''" "CHR 0x27" "''a.png''" "CHR 0x27" "''''"]
    s3 q m1 n2 m3 n4
  have e: "getAttribute last' ''style'' = Some (''background-image:url(x.png);'' @ '''')"
    "getAttribute last' ''data-background'' = Some (''https://host/Book'' @ ''/'' @ ''a.png'')"
    "classList_contains last' ''swiper-lazy''"
    by blast+
  show ?thesis using a b(1) c d(1) e by simp
qed

text \<open>
  Claim C6, as stated, at the same page. The page element itself carries a
  \<open>background-image\<close> declaration and is not rewritten: the path \<^verbatim>\<open>.//*[@style]\<close> selects
  descendants only. And in the last child a second \<open>url('...')\<close> follows on the same line:
  the greedy group runs to the last quote before a parenthesis, so more than the
  declaration is cut out and \<open>data-background\<close> is not the address.
\<close>

theorem fixRelativeUrls_page_element_counterexample:
  "getAttribute backgroundPage ''style'' = Some ''background-image:url('cover.png')''
   \<and> getAttribute (fixRelativeUrls ''https://host/Book'' backgroundPage) ''style'' =
       Some ''background-image:url('cover.png')''
   \<and> getAttribute (fixRelativeUrls ''https://host/Book'' backgroundPage) ''data-background'' = None
   \<and> \<not> classList_contains (fixRelativeUrls ''https://host/Book'' backgroundPage) ''swiper-lazy''
   \<and> nodeAt backgroundPage [2] =
       Some (Element ''div''
         [(''style'', ''background-image:url('a.png');list-style-image:url('b.png')'')] [])
   \<and> nodeAt (fixRelativeUrls ''https://host/Book'' backgroundPage) [2] =
       Some (Element ''div''
         [(''style'', ''''),
          (''data-background'', ''https://host/Book/a.png');list-style-image:url('b.png''),
          (''class'', ''swiper-lazy'')] [])"
  by code_simp

section \<open>The font style sheet\<close>

lemma closeAfterDot_dropWhile:
  "closeAfterDot r n =
     (case dropWhile isGroupTailChar (drop (Suc n) r) of
        [] \<Rightarrow> None
      | c # cs \<Rightarrow>
          if isQuoteChar c then
            (case cs of
               [] \<Rightarrow> None
             | d # ds \<Rightarrow>
                 if d = CHR '')''
                 then Some (n + 1 + length (takeWhile isGroupTailChar (drop (Suc n) r)), 2)
                 else None)
          else if c = CHR '')''
          then Some (n + 1 + length (takeWhile isGroupTailChar (drop (Suc n) r)), 1)
          else None)"
proof -
  define s where "s = drop (Suc n) r"
  have "drop (n + 1 + length (takeWhile isGroupTailChar s)) r =
        drop (length (takeWhile isGroupTailChar s)) (drop (Suc n) r)"
    by (simp add: add.commute)
  also have "\<dots> = dropWhile isGroupTailChar s"
    unfolding s_def[symmetric] by (simp add: dropWhile_eq_drop)
  finally have d: "drop (n + 1 + length (takeWhile isGroupTailChar s)) r = dropWhile isGroupTailChar s" .
  have e: "drop (n + 1) r = s" by (simp add: s_def)
  show ?thesis
    unfolding closeAfterDot_def Let_def e s_def[symmetric] d ..
qed

lemma closeAfterDot_None: "closeAfterDot r n = None \<longleftrightarrow> \<not> closesAfter (drop (Suc n) r)"
proof -
  define t where "t = dropWhile isGroupTailChar (drop (Suc n) r)"
  have q: "\<not> isQuoteChar CHR '')''" by (simp add: isQuoteChar_def)
  show ?thesis
  proof (cases t)
    case Nil
    then show ?thesis
      unfolding closeAfterDot_dropWhile closesAfter_def t_def[symmetric] by simp
  next
    case (Cons c cs)
    then show ?thesis
      unfolding closeAfterDot_dropWhile closesAfter_def t_def[symmetric]
      using q by (cases cs) auto
  qed
qed

lemma closeAfterDot_value:
  assumes "drop (Suc n) r = e @ cq @ '')'' @ f" "\<forall>c \<in> set e. isGroupTailChar c" "optionalQuote cq"
  shows "closeAfterDot r n = Some (n + 1 + length e, length cq + 1)"
proof -
  have nt: "\<not> isGroupTailChar (hd (cq @ '')'' @ f))"
    using assms(3) by (auto simp: optionalQuote_def isGroupTailChar_def isQuoteChar_def)
  have ne: "cq @ '')'' @ f \<noteq> []" by simp
  have t: "takeWhile isGroupTailChar (drop (n + 1) r) = e"
  proof -
    obtain x xs where x: "cq @ '')'' @ f = x # xs" using ne by (cases "cq @ '')'' @ f") auto
    then have "\<not> isGroupTailChar x" using nt by simp
    then show ?thesis using assms(1,2) x by (simp add: takeWhile_append2 del: append_assoc)
  qed
  have d: "drop (n + 1 + length e) r = cq @ '')'' @ f"
  proof -
    have "drop (n + 1 + length e) r = drop (length e) (drop (Suc n) r)" by (simp add: add.commute)
    then show ?thesis using assms(1) by simp
  qed
  show ?thesis
    using assms(3) unfolding closeAfterDot_def Let_def t d
    by (auto simp: optionalQuote_def isQuoteChar_def)
qed

lemma firstClosing_append:
  assumes "\<forall>m \<in> set xs. closeAfterDot r m = None \<or> closeAfterDot r m = Some x"
    and "closeAfterDot r n = Some x"
  shows "firstClosing r (xs @ n # ys) = Some x"
  using assms by (induction xs) auto

lemma rev_upt_split:
  assumes "n < L"
  shows "rev [0 ..< L] = rev [Suc n ..< L] @ n # rev [0 ..< n]"
proof -
  have "[0 ..< L] = [0 ..< n] @ [n ..< L]"
    using assms upt_add_eq_append[of 0 n "L - n"] by simp
  also have "[n ..< L] = n # [Suc n ..< L]" using assms by (simp add: upt_conv_Cons)
  finally show ?thesis by simp
qed

lemma matchGroup_last_dot:
  assumes "n < length (takeWhile (\<lambda>c. \<not> isLineTerminator c) r)"
    and "r ! n = CHR ''.''"
    and "closeAfterDot r n = Some x"
    and "\<And>m. n < m \<Longrightarrow> m < length (takeWhile (\<lambda>c. \<not> isLineTerminator c) r) \<Longrightarrow> r ! m = CHR ''.''
          \<Longrightarrow> closeAfterDot r m = None \<or> closeAfterDot r m = Some x"
  shows "matchGroup r = Some x"
proof -
  define line where "line = takeWhile (\<lambda>c. \<not> isLineTerminator c) r"
  have nth: "line ! m = r ! m" if "m < length line" for m
    using that unfolding line_def by (rule takeWhile_nth)
  have s: "filter (\<lambda>n. line ! n = CHR ''.'') (rev [0 ..< length line]) =
           filter (\<lambda>n. line ! n = CHR ''.'') (rev [Suc n ..< length line])
           @ n # filter (\<lambda>n. line ! n = CHR ''.'') (rev [0 ..< n])"
    using assms(1,2) nth[of n] rev_upt_split[of n "length line"] by (simp add: line_def[symmetric])
  have a: "\<forall>m \<in> set (filter (\<lambda>n. line ! n = CHR ''.'') (rev [Suc n ..< length line])).
             closeAfterDot r m = None \<or> closeAfterDot r m = Some x"
  proof
    fix m assume "m \<in> set (filter (\<lambda>n. line ! n = CHR ''.'') (rev [Suc n ..< length line]))"
    then have m: "n < m" "m < length line" "line ! m = CHR ''.''" by auto
    then have "r ! m = CHR ''.''" using nth by simp
    with m show "closeAfterDot r m = None \<or> closeAfterDot r m = Some x"
      using assms(4)[of m] by (simp add: line_def)
  qed
  show ?thesis
    unfolding matchGroup_def Let_def line_def[symmetric] s
    using a assms(3) by (rule firstClosing_append)
qed


lemma closingDotOnLine_nth:
  assumes "\<not> closingDotOnLine F" "j < length (takeWhile (\<lambda>c. \<not> isLineTerminator c) F)"
    and "F ! j = CHR ''.''"
  shows "\<not> closesAfter (drop (Suc j) F)"
  using assms
proof (induction F arbitrary: j)
  case Nil
  then show ?case by simp
next
  case (Cons c cs)
  have nl: "\<not> isLineTerminator c" using Cons.prems(2) by (auto split: if_splits)
  with Cons.prems(1) have a: "\<not> (c = CHR ''.'' \<and> closesAfter cs)" "\<not> closingDotOnLine cs" by auto
  show ?case
  proof (cases j)
    case 0
    then show ?thesis using Cons.prems(3) a(1) by simp
  next
    case (Suc k)
    then have "k < length (takeWhile (\<lambda>c. \<not> isLineTerminator c) cs)" "cs ! k = CHR ''.''"
      using Cons.prems(2,3) nl by simp_all
    from Cons.IH[OF a(2) this] show ?thesis using Suc by simp
  qed
qed

lemma quote_facts:
  assumes "optionalQuote cq"
  shows "\<forall>c \<in> set (cq @ '')''). \<not> isLineTerminator c \<and> c \<noteq> CHR ''.'' \<and> \<not> isGroupTailChar c"
  using assms by (auto simp: optionalQuote_def isLineTerminator_def isGroupTailChar_def isQuoteChar_def)

lemma matchGroup_reference:
  assumes st: "\<forall>c \<in> set stem. \<not> isLineTerminator c"
    and ex: "\<forall>c \<in> set ext. isGroupTailChar c"
    and cq: "optionalQuote cq"
    and fo: "(\<exists>c \<in> set ext. isLineTerminator c) \<or> \<not> closingDotOnLine following"
  shows "matchGroup (stem @ ''.'' @ ext @ cq @ '')'' @ following) =
           Some (length stem + 1 + length ext, length cq + 1)"
proof -
  define r where "r = stem @ ''.'' @ ext @ cq @ '')'' @ following"
  define n where "n = length stem"
  define B where "B = length stem + 1 + length ext + length cq + 1"
  let ?nl = "\<lambda>c. \<not> isLineTerminator c"
  have dot: "\<not> isLineTerminator CHR ''.''" by (simp add: isLineTerminator_def)
  have line1: "takeWhile ?nl r = stem @ CHR ''.'' # takeWhile ?nl (ext @ cq @ '')'' @ following)"
    using st dot by (simp add: r_def takeWhile_append2)
  have 1: "n < length (takeWhile ?nl r)" unfolding line1 n_def by simp
  have 2: "r ! n = CHR ''.''" by (simp add: r_def n_def nth_append)
  have d0: "drop (Suc n) r = ext @ cq @ '')'' @ following" by (simp add: r_def n_def)
  have 3: "closeAfterDot r n = Some (n + 1 + length ext, length cq + 1)"
    using d0 ex cq by (rule closeAfterDot_value)
  have 4: "closeAfterDot r m = None \<or> closeAfterDot r m = Some (n + 1 + length ext, length cq + 1)"
    if m: "n < m" "m < length (takeWhile ?nl r)" "r ! m = CHR ''.''" for m
  proof (cases "m < n + 1 + length ext")
    case True
    define k where "k = m - n - 1"
    have k: "m = n + 1 + k" "k < length ext" using True m(1) by (simp_all add: k_def)
    have "drop (Suc m) r = drop (Suc k) (drop (Suc n) r)" by (simp add: k(1) add.commute)
    also have "\<dots> = drop (Suc k) ext @ cq @ '')'' @ following" using k(2) by (simp add: d0)
    finally have d: "drop (Suc m) r = drop (Suc k) ext @ cq @ '')'' @ following" .
    have e: "\<forall>c \<in> set (drop (Suc k) ext). isGroupTailChar c"
      using ex by (meson in_set_dropD)
    have "closeAfterDot r m = Some (m + 1 + length (drop (Suc k) ext), length cq + 1)"
      using d e cq by (rule closeAfterDot_value)
    moreover have "m + 1 + length (drop (Suc k) ext) = n + 1 + length ext" using k by simp
    ultimately show ?thesis by simp
  next
    case False
    have noLT: "\<forall>c \<in> set ext. \<not> isLineTerminator c"
    proof (rule ccontr)
      assume "\<not> (\<forall>c \<in> set ext. \<not> isLineTerminator c)"
      then have "dropWhile ?nl ext \<noteq> []" by (simp add: dropWhile_eq_Nil_conv)
      then have "0 < length (dropWhile ?nl ext)" by simp
      moreover have "length (takeWhile ?nl ext) + length (dropWhile ?nl ext) = length ext"
        by (simp only: length_append[symmetric] takeWhile_dropWhile_id)
      ultimately have "length (takeWhile ?nl ext) < length ext" by linarith
      moreover obtain c where "c \<in> set ext" "\<not> \<not> isLineTerminator c"
        using \<open>\<not> (\<forall>c \<in> set ext. \<not> isLineTerminator c)\<close> by blast
      then have "takeWhile ?nl (ext @ cq @ '')'' @ following) = takeWhile ?nl ext"
        by (rule takeWhile_append1)
      ultimately have "length (takeWhile ?nl r) < n + 1 + length ext"
        unfolding line1 n_def by simp
      with m(2) False show False by simp
    qed
    then have nc: "\<not> closingDotOnLine following" using fo by blast
    have qf: "\<forall>c \<in> set (cq @ '')''). \<not> isLineTerminator c \<and> c \<noteq> CHR ''.'' \<and> \<not> isGroupTailChar c"
      using cq by (rule quote_facts)
    define P where "P = stem @ ''.'' @ ext @ cq @ '')''"
    have rP: "r = P @ following" by (simp add: r_def P_def)
    have lP: "length P = B" by (simp add: P_def B_def)
    have PnoLT: "\<forall>c \<in> set P. \<not> isLineTerminator c"
      using st noLT qf dot by (auto simp: P_def)
    have line2: "takeWhile ?nl r = P @ takeWhile ?nl following"
      unfolding rP using PnoLT by (simp add: takeWhile_append2)
    have mB: "B \<le> m"
    proof (rule ccontr)
      assume "\<not> B \<le> m"
      then have lt: "m < B" by simp
      define i where "i = m - (n + 1 + length ext)"
      have i: "m = n + 1 + length ext + i" "i < length (cq @ '')'')"
        using False lt by (simp_all add: i_def B_def n_def)
      have "r ! m = ((stem @ ''.'' @ ext) @ ((cq @ '')'') @ following)) ! (length (stem @ ''.'' @ ext) + i)"
        by (simp add: r_def i(1) n_def)
      also have "\<dots> = ((cq @ '')'') @ following) ! i" by (rule nth_append_length_plus)
      also have "\<dots> = (cq @ '')'') ! i" using i(2) by (simp only: nth_append if_True)
      finally have "r ! m \<in> set (cq @ '')'')" using i(2) by (metis nth_mem)
      with qf m(3) show False by auto
    qed
    define j where "j = m - B"
    have j: "m = B + j" using mB by (simp add: j_def)
    have jl: "j < length (takeWhile ?nl following)"
      using m(2) unfolding line2 by (simp add: lP j)
    have "r ! m = following ! j" unfolding rP j lP[symmetric] by (rule nth_append_length_plus)
    then have fj: "following ! j = CHR ''.''" using m(3) by simp
    have "drop (Suc m) r = drop (Suc j) following"
      unfolding rP by (simp add: j lP)
    with closingDotOnLine_nth[OF nc jl fj] have "\<not> closesAfter (drop (Suc m) r)" by simp
    then show ?thesis by (simp add: closeAfterDot_None)
  qed
  have "matchGroup r = Some (n + 1 + length ext, length cq + 1)"
    using 1 2 3 4 by (rule matchGroup_last_dot)
  then show ?thesis by (simp add: r_def n_def)
qed


lemma matchFontUrlAt_reference:
  assumes oq: "optionalQuote oq"
    and hd: "oq = [] \<longrightarrow> (case stem of [] \<Rightarrow> True | c # cs \<Rightarrow> \<not> isQuoteChar c)"
    and st: "\<forall>c \<in> set stem. \<not> isLineTerminator c"
    and ex: "\<forall>c \<in> set ext. isGroupTailChar c"
    and cq: "optionalQuote cq"
    and fo: "(\<exists>c \<in> set ext. isLineTerminator c) \<or> \<not> closingDotOnLine following"
  shows "matchFontUrlAt (''src:url('' @ oq @ stem @ ''.'' @ ext @ cq @ '')'' @ following) =
           Some (stem @ ''.'' @ ext,
                 length (''src:url('' @ oq @ stem @ ''.'' @ ext @ cq @ '')''))"
proof -
  define r1 where "r1 = stem @ ''.'' @ ext @ cq @ '')'' @ following"
  have g: "matchGroup r1 = Some (length stem + 1 + length ext, length cq + 1)"
    unfolding r1_def using st ex cq fo by (rule matchGroup_reference)
  have tk: "take (length stem + 1 + length ext) r1 = stem @ ''.'' @ ext"
    by (simp add: r1_def)
  have s: "startsWith (''src:url('' @ oq @ r1) ''src:url(''" by (simp add: startsWith_def)
  have d: "drop (length ''src:url('') (''src:url('' @ oq @ r1) = oq @ r1" by simp
  show ?thesis
  proof (cases "oq = []")
    case True
    have nq: "\<not> isQuoteChar (hd r1)"
    proof (cases stem)
      case Nil
      then show ?thesis by (simp add: r1_def isQuoteChar_def)
    next
      case (Cons c cs)
      then show ?thesis using hd True by (simp add: r1_def)
    qed
    obtain x xs where x: "r1 = x # xs" by (cases r1) (auto simp: r1_def)
    have "matchFontUrlAt (''src:url('' @ oq @ r1) =
            Some (take (length stem + 1 + length ext) r1,
                  length ''src:url('' + (length stem + 1 + length ext) + (length cq + 1))"
      unfolding matchFontUrlAt_def Let_def using s d g nq True x by simp
    then show ?thesis using True unfolding tk by (simp add: r1_def)
  next
    case False
    then obtain q where q: "oq = [q]" "isQuoteChar q"
      using oq by (auto simp: optionalQuote_def isQuoteChar_def)
    have "matchFontUrlAt (''src:url('' @ oq @ r1) =
            Some (take (length stem + 1 + length ext) r1,
                  length ''src:url('' + 1 + (length stem + 1 + length ext) + (length cq + 1))"
      unfolding matchFontUrlAt_def Let_def using s d g q by simp
    then show ?thesis using q unfolding tk by (simp add: r1_def)
  qed
qed

lemma closeAfterDot_paren: "closeAfterDot r n = Some x \<Longrightarrow> CHR '')'' \<in> set r"
proof -
  assume a: "closeAfterDot r n = Some x"
  then have "closesAfter (drop (Suc n) r)" using closeAfterDot_None[of r n] by auto
  then obtain c cs where c: "dropWhile isGroupTailChar (drop (Suc n) r) = c # cs"
    "c = CHR '')'' \<or> (isQuoteChar c \<and> (case cs of [] \<Rightarrow> False | d # ds \<Rightarrow> d = CHR '')''))"
    by (auto simp: closesAfter_def split: list.splits)
  then have "CHR '')'' \<in> set (c # cs)" by (cases cs) auto
  then have "CHR '')'' \<in> set (dropWhile isGroupTailChar (drop (Suc n) r))" using c(1) by simp
  then have "CHR '')'' \<in> set (drop (Suc n) r)" by (rule set_dropWhileD)
  then show ?thesis by (rule in_set_dropD)
qed

lemma firstClosing_Some: "firstClosing r ns = Some x \<Longrightarrow> \<exists>n. closeAfterDot r n = Some x"
  by (induction ns) (auto split: option.splits)

lemma matchGroup_paren: "matchGroup r = Some x \<Longrightarrow> CHR '')'' \<in> set r"
  unfolding matchGroup_def Let_def
  using firstClosing_Some closeAfterDot_paren by blast

lemma matchFontUrlAt_Some:
  assumes "matchFontUrlAt (c # cs) = Some x"
  shows "startsWith (c # cs) ''src:url('' \<and> CHR '')'' \<in> set cs"
proof -
  have s: "startsWith (c # cs) ''src:url(''"
    using assms by (auto simp: matchFontUrlAt_def split: if_splits)
  define r where "r = drop (length ''src:url('') (c # cs)"
  have sub: "set r \<subseteq> set cs"
  proof -
    have "r = drop (length ''src:url('' - 1) cs" by (simp add: r_def)
    then show ?thesis by (metis set_drop_subset)
  qed
  have "matchGroup r \<noteq> None \<or> (\<exists>q r1. r = q # r1 \<and> matchGroup r1 \<noteq> None)"
    using assms s unfolding matchFontUrlAt_def Let_def r_def[symmetric]
    by (auto split: list.splits option.splits if_splits)
  then have "CHR '')'' \<in> set r"
    using matchGroup_paren by (auto dest: matchGroup_paren)
  with s sub show ?thesis by blast
qed

lemma replaceAllFontUrls_unchanged:
  "\<not> mentionsReference s \<Longrightarrow> replaceAllFontUrls template seen 0 s = s"
proof (induction s arbitrary: seen)
  case Nil
  then show ?case by simp
next
  case (Cons c cs)
  have "matchFontUrlAt (c # cs) = None"
  proof (rule ccontr)
    assume "matchFontUrlAt (c # cs) \<noteq> None"
    then obtain x where "matchFontUrlAt (c # cs) = Some x" by auto
    from matchFontUrlAt_Some[OF this] Cons.prems show False by simp
  qed
  moreover have "\<not> mentionsReference cs" using Cons.prems by simp
  ultimately show ?case using Cons.IH by simp
qed

lemma replaceAllFontUrls_leading:
  assumes "\<not> sublist ''src:url('' leading"
  shows "replaceAllFontUrls template seen 0 (leading @ ''src:url('' @ X) =
           leading @ replaceAllFontUrls template (seen @ leading) 0 (''src:url('' @ X)"
  using assms
proof (induction leading arbitrary: seen)
  case Nil
  then show ?case by simp
next
  case (Cons c cs)
  have np: "\<not> prefix ''src:url('' (c # cs)" and ns: "\<not> sublist ''src:url('' cs"
    using Cons.prems by (simp_all add: sublist_Cons_right)
  have "\<not> startsWith ((c # cs) @ ''src:url('' @ X) ''src:url(''"
  proof
    assume "startsWith ((c # cs) @ ''src:url('' @ X) ''src:url(''"
    then have "take (length ''src:url('') ((c # cs) @ ''src:url('' @ X) = ''src:url(''"
      unfolding startsWith_def .
    then have "prefix ''src:url('' (c # cs)"
      by (rule starts_inside_generic) simp_all
    with np show False by simp
  qed
  then have m: "matchFontUrlAt (c # cs @ ''src:url('' @ X) = None"
    by (simp add: matchFontUrlAt_def)
  have "replaceAllFontUrls template seen 0 ((c # cs) @ ''src:url('' @ X) =
          c # replaceAllFontUrls template (seen @ [c]) 0 (cs @ ''src:url('' @ X)"
    using m by (simp del: append.simps add: append_Cons)
  then show ?case using Cons.IH[OF ns, of "seen @ [c]"] by simp
qed

lemma replaceAllFontUrls_skip:
  "replaceAllFontUrls template seen (length xs) (xs @ ys) =
     replaceAllFontUrls template (seen @ xs) 0 ys"
  by (induction xs arbitrary: seen) simp_all

lemma replaceAllFontUrls_match:
  assumes "matchFontUrlAt (M @ F) = Some (captured, length M)" "M \<noteq> []"
  shows "replaceAllFontUrls template seen 0 (M @ F) =
           expandTemplate template M captured seen F
           @ replaceAllFontUrls template (seen @ M) 0 F"
proof -
  obtain c cs where M: "M = c # cs" using assms(2) by (cases M) auto
  have "replaceAllFontUrls template seen 0 (c # (cs @ F)) =
          expandTemplate template (take (length M) (c # cs @ F)) captured seen
            (drop (length M) (c # cs @ F))
          @ replaceAllFontUrls template (seen @ [c]) (length M - 1) (cs @ F)"
    using assms(1) M by simp
  moreover have "take (length M) (c # cs @ F) = M" "drop (length M) (c # cs @ F) = F"
    by (simp_all add: M)
  moreover have "replaceAllFontUrls template (seen @ [c]) (length M - 1) (cs @ F) =
          replaceAllFontUrls template ((seen @ [c]) @ cs) 0 F"
    using replaceAllFontUrls_skip[of template "seen @ [c]" cs F] by (simp add: M)
  ultimately show ?thesis by (simp add: M)
qed


lemma templateStep_literal:
  "\<not> dollarPattern (c # cs) \<Longrightarrow> templateStep (c # cs) matched captured textBefore textAfter = ([c], 1)"
  by (cases cs; cases "tl cs")
     (auto simp: templateStep_def dollarPattern_def startsWith_def split: list.splits)

lemma dollarPattern_slash:
  "\<not> dollarPattern (c # cs) \<Longrightarrow> \<not> dollarPattern (c # cs @ CHR ''/'' # t)"
  by (cases cs; cases "tl cs") (auto simp: dollarPattern_def startsWith_def)

lemma expandFrom_literal:
  "literalText p \<Longrightarrow>
   expandFrom 0 (p @ CHR ''/'' # t) matched captured textBefore textAfter =
     p @ expandFrom 0 (CHR ''/'' # t) matched captured textBefore textAfter"
proof (induction p)
  case Nil
  then show ?case by simp
next
  case (Cons c cs)
  have "\<not> dollarPattern (c # cs @ CHR ''/'' # t)"
    using Cons.prems by (simp add: dollarPattern_slash)
  then have "templateStep (c # cs @ CHR ''/'' # t) matched captured textBefore textAfter = ([c], 1)"
    by (rule templateStep_literal)
  then show ?case using Cons by simp
qed

lemma literalText_no_dollar: "CHR ''$'' \<notin> set a \<Longrightarrow> literalText (a @ b) = literalText b"
  by (induction a) (auto simp: dollarPattern_def startsWith_def)

lemma expandTemplate_fontUrl:
  assumes "literalText fontPrefix"
  shows "expandTemplate (''src:url('' @ [CHR 0x27] @ fontPrefix @ ''/$1'' @ [CHR 0x27] @ '')'')
           matched captured textBefore textAfter =
         ''src:url('' @ [CHR 0x27] @ fontPrefix @ ''/'' @ captured @ [CHR 0x27] @ '')''"
proof -
  have l: "literalText ((''src:url('' @ [CHR 0x27]) @ fontPrefix)"
    using assms by (subst literalText_no_dollar) simp_all
  have e: "expandFrom 0 (CHR ''/'' # ''$1'' @ [CHR 0x27] @ '')'') matched captured textBefore textAfter =
           ''/'' @ captured @ [CHR 0x27] @ '')''"
    by (simp add: templateStep_def)
  have "expandFrom 0 (((''src:url('' @ [CHR 0x27]) @ fontPrefix) @ CHR ''/'' # (''$1'' @ [CHR 0x27] @ '')''))
          matched captured textBefore textAfter =
        ((''src:url('' @ [CHR 0x27]) @ fontPrefix) @ (''/'' @ captured @ [CHR 0x27] @ '')'')"
    unfolding expandFrom_literal[OF l] e ..
  then show ?thesis by (simp add: expandTemplate_def)
qed

lemma replaceAllFontUrls_sheet:
  assumes "literalText fontPrefix"
  shows "wellFormedSheet rs final \<Longrightarrow>
         replaceAllFontUrls (''src:url('' @ [CHR 0x27] @ fontPrefix @ ''/$1'' @ [CHR 0x27] @ '')'')
           seen 0 (sheetText rs final) =
         absoluteSheet fontPrefix rs final"
proof (induction rs arbitrary: seen)
  case Nil
  then show ?case by (simp add: replaceAllFontUrls_unchanged)
next
  case (Cons r rs)
  let ?T = "''src:url('' @ [CHR 0x27] @ fontPrefix @ ''/$1'' @ [CHR 0x27] @ '')''"
  obtain leading oq stem ext cq where r: "r = Reference leading oq stem ext cq" by (cases r) auto
  define F where "F = sheetText rs final"
  define M where "M = ''src:url('' @ oq @ stem @ ''.'' @ ext @ cq @ '')''"
  from Cons.prems r have nq: "\<forall>c \<in> set stem. \<not> isQuoteChar c"
    by simp
  then have hq: "oq = [] \<longrightarrow> (case stem of [] \<Rightarrow> True | c # cs \<Rightarrow> \<not> isQuoteChar c)"
    by (cases stem) simp_all
  from Cons.prems r have w: "\<not> sublist ''src:url('' leading" "optionalQuote oq" "optionalQuote cq"
    "oq = [] \<longrightarrow> (case stem of [] \<Rightarrow> True | c # cs \<Rightarrow> \<not> isQuoteChar c)"
    "\<forall>c \<in> set stem. \<not> isLineTerminator c" "\<forall>c \<in> set ext. isGroupTailChar c"
    "(\<exists>c \<in> set ext. isLineTerminator c) \<or> \<not> closingDotOnLine F"
    and wr: "wellFormedSheet rs final"
    using hq by (simp_all add: F_def)
  have m: "matchFontUrlAt (M @ F) = Some (stem @ ''.'' @ ext, length M)"
    using matchFontUrlAt_reference[OF w(2,4,5,6,3,7)] by (simp add: M_def)
  have ne: "M \<noteq> []" by (simp add: M_def)
  have s: "sheetText (r # rs) final = leading @ ''src:url('' @ (oq @ stem @ ''.'' @ ext @ cq @ '')'' @ F)"
    by (simp add: r F_def)
  have "replaceAllFontUrls ?T seen 0 (sheetText (r # rs) final) =
        leading @ replaceAllFontUrls ?T (seen @ leading) 0 (''src:url('' @ (oq @ stem @ ''.'' @ ext @ cq @ '')'' @ F))"
    unfolding s using w(1) by (rule replaceAllFontUrls_leading)
  also have "''src:url('' @ (oq @ stem @ ''.'' @ ext @ cq @ '')'' @ F) = M @ F" by (simp add: M_def)
  also have "replaceAllFontUrls ?T (seen @ leading) 0 (M @ F) =
        expandTemplate ?T M (stem @ ''.'' @ ext) (seen @ leading) F
        @ replaceAllFontUrls ?T ((seen @ leading) @ M) 0 F"
    using m ne by (rule replaceAllFontUrls_match)
  also have "expandTemplate ?T M (stem @ ''.'' @ ext) (seen @ leading) F =
        ''src:url('' @ [CHR 0x27] @ fontPrefix @ ''/'' @ (stem @ ''.'' @ ext) @ [CHR 0x27] @ '')''"
    using assms by (rule expandTemplate_fontUrl)
  also have "replaceAllFontUrls ?T ((seen @ leading) @ M) 0 F = absoluteSheet fontPrefix rs final"
    unfolding F_def using wr by (rule Cons.IH)
  finally show ?case by (simp add: r)
qed

lemma makeFontStylesheet_absolute:
  assumes "httpget net (fontPrefix @ ''/fonts.css'') = Some result"
    and "responseData result = sheetText rs final"
    and "wellFormedSheet rs final" "literalText fontPrefix"
  shows "makeFontStylesheet net (fontPrefix @ ''/fonts.css'') = Some (absoluteSheet fontPrefix rs final)"
proof -
  have p: "substring (fontPrefix @ ''/fonts.css'') 0
             (int (length (fontPrefix @ ''/fonts.css'')) - int (length ''/fonts.css'')) = fontPrefix"
    by (simp add: substring_from_start)
  show ?thesis
    unfolding makeFontStylesheet_def Let_def p
    using assms(1,2) replaceAllFontUrls_sheet[OF assms(4,3), of "[]"] by simp
qed

text \<open>
  A sheet with two faces on two lines, the first address quoted and with parentheses in
  its name.
\<close>

lemma makeFontStylesheet_two_faces:
  "makeFontStylesheet
     (constantServer (''@font-face{src:url('Andika (1).ttf') format('opentype');}'' @ [CHR 10]
                      @ ''@font-face{src:url(Andika-B.ttf)}''))
     ''https://host/Book/fonts.css'' =
   Some (''@font-face{src:url('https://host/Book/Andika (1).ttf') format('opentype');}'' @ [CHR 10]
         @ ''@font-face{src:url('https://host/Book/Andika-B.ttf')}'')"
proof -
  define rs where
    "rs = [Reference ''@font-face{'' [CHR 0x27] ''Andika (1)'' ''ttf'' [CHR 0x27],
           Reference ('' format('opentype');}'' @ [CHR 10] @ ''@font-face{'') '''' ''Andika-B'' ''ttf'' '''']"
  define d where
    "d = ''@font-face{src:url('Andika (1).ttf') format('opentype');}'' @ [CHR 10]
         @ ''@font-face{src:url(Andika-B.ttf)}''"
  define result where
    "result = \<lparr> responseData = d, responseUrl = ''https://host/Book/fonts.css'' \<rparr>"
  have g: "httpget (constantServer d) (''https://host/Book'' @ ''/fonts.css'') = Some result"
    by (simp add: httpget_def constantServer_def result_def)
  have t: "responseData result = sheetText rs ''}''" by (simp add: result_def d_def rs_def)
  have w: "wellFormedSheet rs ''}''" unfolding rs_def by code_simp
  have l: "literalText ''https://host/Book''" by code_simp
  from makeFontStylesheet_absolute[OF g t w l]
  show ?thesis by (simp add: d_def rs_def)
qed

section \<open>The combined style sheet\<close>

lemma collectRequests_eq:
  "collectRequests net p links =
     (map (httpget net)
        (filter (\<lambda>h. \<not> endsWith h ''/fonts.css'') (map (\<lambda>l. fullUrl p (getAttribute l ''href'')) links)),
      filter (\<lambda>h. endsWith h ''/fonts.css'') (map (\<lambda>l. fullUrl p (getAttribute l ''href'')) links))"
  by (induction links) (simp_all add: Let_def)

lemma foldl_append_concat: "foldl (\<lambda>acc x. acc @ f x) a xs = a @ concat (map f xs)"
  by (induction xs arbitrary: a) simp_all

lemma addResult_append:
  "addResult a r = a @ (case r of None \<Rightarrow> '''' | Some x \<Rightarrow> responseData x)"
  by (simp add: addResult_def split: option.splits)

lemma foldl_addResult:
  "foldl addResult a rs = a @ concat (map (\<lambda>r. case r of None \<Rightarrow> '''' | Some x \<Rightarrow> responseData x) rs)"
  by (induction rs arbitrary: a) (simp_all add: addResult_append)

lemma assembleStyleSheets_styleRules:
  "styleRules (newState (assembleStyleSheets net p quizCss doc st)) =
     claimedCombinedStyle net p doc
     @ (case quizCss of None \<Rightarrow> '''' | Some None \<Rightarrow> '''' | Some (Some r) \<Rightarrow> responseData r)"
proof -
  have "styleRules (newState (assembleStyleSheets net p quizCss doc st)) =
        foldl addResult (foldl (\<lambda>combinedStyle styleElt. combinedStyle @ innerText styleElt) '''' (styleElts doc))
          (map (httpget net)
             (filter (\<lambda>h. \<not> endsWith h ''/fonts.css'')
                (map (\<lambda>l. fullUrl p (getAttribute l ''href'')) (linkElts doc)))
           @ (case quizCss of None \<Rightarrow> [] | Some q \<Rightarrow> [q]))"
    by (simp add: assembleStyleSheets_def collectRequests_eq Let_def)
  then show ?thesis
    by (simp add: foldl_addResult foldl_append_concat claimedCombinedStyle_def comp_def
        split: option.splits)
qed

text \<open>
  Claim C4, amended. The combined style sheet is the text of the embedded style blocks in
  document order, then the data of the linked style sheets that could be fetched, in
  document order, and then the data of the quiz style sheet when the legacy question
  handler has a request for one and it succeeds. A link whose address ends in
  \<open>/fonts.css\<close> contributes nothing to the combined string: \<^verbatim>\<open>makeFontStylesheet\<close> is
  called for it. When its request fails nothing is written. When it succeeds with a well
  formed sheet and the address without \<open>/fonts.css\<close> is a prefix that stands for itself,
  the sheet is written to the font style element of the main document with every
  reference made absolute against that prefix. A failed request contributes nothing, and
  the component stops loading without being marked as failed.
\<close>

theorem assembleStyleSheets_combined:
  "styleRules (newState (assembleStyleSheets net bookPrefix quizCss doc st)) =
     concat (map innerText (styleElts doc))
     @ concat (map (\<lambda>h. case httpget net h of None \<Rightarrow> '''' | Some r \<Rightarrow> responseData r)
         (filter (\<lambda>h. \<not> endsWith h ''/fonts.css'')
            (map (\<lambda>l. fullUrl bookPrefix (getAttribute l ''href'')) (linkElts doc))))
     @ (case quizCss of None \<Rightarrow> '''' | Some None \<Rightarrow> '''' | Some (Some r) \<Rightarrow> responseData r)
   \<and> fontStyleSheets (assembleStyleSheets net bookPrefix quizCss doc st) =
       List.map_filter (makeFontStylesheet net)
         (filter (\<lambda>h. endsWith h ''/fonts.css'')
            (map (\<lambda>l. fullUrl bookPrefix (getAttribute l ''href'')) (linkElts doc)))
   \<and> (\<forall>h. httpget net h = None \<longrightarrow> makeFontStylesheet net h = None)
   \<and> (\<forall>fontPrefix result rs final.
         httpget net (fontPrefix @ ''/fonts.css'') = Some result
         \<and> responseData result = sheetText rs final
         \<and> wellFormedSheet rs final \<and> literalText fontPrefix
         \<longrightarrow> makeFontStylesheet net (fontPrefix @ ''/fonts.css'') =
               Some (absoluteSheet fontPrefix rs final))
   \<and> \<not> isLoading (newState (assembleStyleSheets net bookPrefix quizCss doc st))
   \<and> loadFailed (newState (assembleStyleSheets net bookPrefix quizCss doc st)) = loadFailed st"
proof (intro conjI allI impI)
  show "styleRules (newState (assembleStyleSheets net bookPrefix quizCss doc st)) =
     concat (map innerText (styleElts doc))
     @ concat (map (\<lambda>h. case httpget net h of None \<Rightarrow> '''' | Some r \<Rightarrow> responseData r)
         (filter (\<lambda>h. \<not> endsWith h ''/fonts.css'')
            (map (\<lambda>l. fullUrl bookPrefix (getAttribute l ''href'')) (linkElts doc))))
     @ (case quizCss of None \<Rightarrow> '''' | Some None \<Rightarrow> '''' | Some (Some r) \<Rightarrow> responseData r)"
    using assembleStyleSheets_styleRules[of net bookPrefix quizCss doc st]
    by (simp add: claimedCombinedStyle_def)
next
  show "fontStyleSheets (assembleStyleSheets net bookPrefix quizCss doc st) =
       List.map_filter (makeFontStylesheet net)
         (filter (\<lambda>h. endsWith h ''/fonts.css'')
            (map (\<lambda>l. fullUrl bookPrefix (getAttribute l ''href'')) (linkElts doc)))"
    by (simp add: assembleStyleSheets_def collectRequests_eq Let_def)
next
  fix h assume "httpget net h = None"
  then show "makeFontStylesheet net h = None" by (simp add: makeFontStylesheet_def)
next
  fix fontPrefix result rs final
  assume "httpget net (fontPrefix @ ''/fonts.css'') = Some result
         \<and> responseData result = sheetText rs final
         \<and> wellFormedSheet rs final \<and> literalText fontPrefix"
  then show "makeFontStylesheet net (fontPrefix @ ''/fonts.css'') =
               Some (absoluteSheet fontPrefix rs final)"
    using makeFontStylesheet_absolute by blast
next
  show "\<not> isLoading (newState (assembleStyleSheets net bookPrefix quizCss doc st))"
    by (simp add: assembleStyleSheets_def Let_def split: prod.splits)
next
  show "loadFailed (newState (assembleStyleSheets net bookPrefix quizCss doc st)) = loadFailed st"
    by (simp add: assembleStyleSheets_def Let_def split: prod.splits)
qed

text \<open>
  The theorem at the scenario: a book at \<open>https://host/Book\<close> with an embedded style and
  links to \<open>fonts.css\<close>, \<open>custom.css\<close> and a missing file, and no quiz style sheet. The
  combined string holds the text of \<open>custom.css\<close> and not that of \<open>fonts.css\<close>, which
  goes to the font style element with its address made absolute.
\<close>

theorem assembleStyleSheets_combined_witness:
  "styleRules (newState (assembleStyleSheets bookServer ''https://host/Book'' None styledBook initialState)) =
     ''p{margin:0}.x{color:red}''
   \<and> sublist ''.x{color:red}''
        (styleRules (newState (assembleStyleSheets bookServer ''https://host/Book'' None styledBook initialState)))
   \<and> \<not> sublist ''@font-face{src:url(Andika-R.ttf)}''
        (styleRules (newState (assembleStyleSheets bookServer ''https://host/Book'' None styledBook initialState)))
   \<and> wellFormedSheet [Reference ''@font-face{'' '''' ''Andika-R'' ''ttf'' ''''] ''}''
   \<and> literalText ''https://host/Book''
   \<and> fontStyleSheets (assembleStyleSheets bookServer ''https://host/Book'' None styledBook initialState) =
       [''@font-face{src:url('https://host/Book/Andika-R.ttf')}'']
   \<and> \<not> isLoading (newState (assembleStyleSheets bookServer ''https://host/Book'' None styledBook initialState))
   \<and> \<not> loadFailed (newState (assembleStyleSheets bookServer ''https://host/Book'' None styledBook initialState))"
proof -
  let ?out = "assembleStyleSheets bookServer ''https://host/Book'' None styledBook initialState"
  define result where
    "result = \<lparr> responseData = ''@font-face{src:url(Andika-R.ttf)}'',
                 responseUrl = ''https://host/Book/fonts.css'' \<rparr>"
  have e1: "concat (map innerText (styleElts styledBook))
     @ concat (map (\<lambda>h. case httpget bookServer h of None \<Rightarrow> '''' | Some r \<Rightarrow> responseData r)
         (filter (\<lambda>h. \<not> endsWith h ''/fonts.css'')
            (map (\<lambda>l. fullUrl ''https://host/Book'' (getAttribute l ''href'')) (linkElts styledBook))))
     @ (case (None :: response option option) of None \<Rightarrow> '''' | Some None \<Rightarrow> ''''
        | Some (Some r) \<Rightarrow> responseData r)
     = ''p{margin:0}.x{color:red}''"
    by code_simp
  have e2: "filter (\<lambda>h. endsWith h ''/fonts.css'')
            (map (\<lambda>l. fullUrl ''https://host/Book'' (getAttribute l ''href'')) (linkElts styledBook))
     = [''https://host/Book'' @ ''/fonts.css'']"
    by code_simp
  have e3: "sublist ''.x{color:red}'' ''p{margin:0}.x{color:red}''"
    "\<not> sublist ''@font-face{src:url(Andika-R.ttf)}'' ''p{margin:0}.x{color:red}''"
    by code_simp+
  have e4: "\<not> loadFailed initialState" by (simp add: initialState_def)
  have g: "httpget bookServer (''https://host/Book'' @ ''/fonts.css'') = Some result"
    unfolding result_def by code_simp
  have d: "responseData result = sheetText [Reference ''@font-face{'' '''' ''Andika-R'' ''ttf'' ''''] ''}''"
    by (simp add: result_def)
  have w: "wellFormedSheet [Reference ''@font-face{'' '''' ''Andika-R'' ''ttf'' ''''] ''}''"
    by code_simp
  have l: "literalText ''https://host/Book''" by code_simp
  note t = assembleStyleSheets_combined[of bookServer "''https://host/Book''" None styledBook initialState]
  have 1: "styleRules (newState ?out) = ''p{margin:0}.x{color:red}''"
    using t[THEN conjunct1] e1 by simp
  have f: "\<forall>fontPrefix result rs final.
         httpget bookServer (fontPrefix @ ''/fonts.css'') = Some result
         \<and> responseData result = sheetText rs final
         \<and> wellFormedSheet rs final \<and> literalText fontPrefix
         \<longrightarrow> makeFontStylesheet bookServer (fontPrefix @ ''/fonts.css'') =
               Some (absoluteSheet fontPrefix rs final)"
    using t by blast
  from f[rule_format, of "''https://host/Book''" result
      "[Reference ''@font-face{'' '''' ''Andika-R'' ''ttf'' '''']" "''}''"] g d w l
  have m: "makeFontStylesheet bookServer (''https://host/Book'' @ ''/fonts.css'') =
           Some (absoluteSheet ''https://host/Book''
                   [Reference ''@font-face{'' '''' ''Andika-R'' ''ttf'' ''''] ''}'')"
    by blast
  have "fontStyleSheets ?out =
          List.map_filter (makeFontStylesheet bookServer) [''https://host/Book'' @ ''/fonts.css'']"
    using t[THEN conjunct2, THEN conjunct1] unfolding e2 .
  then have 2: "fontStyleSheets ?out = [''@font-face{src:url('https://host/Book/Andika-R.ttf')}'']"
    using m by (simp add: List.map_filter_def)
  have 3: "\<not> isLoading (newState ?out)" "\<not> loadFailed (newState ?out)"
    using t e4 by simp_all
  show ?thesis using 1 2 3 e3 w l by simp
qed

text \<open>
  Claim C4, as stated. At the same book, when the legacy question handler has a request for
  the quiz style sheet, its data is appended, so the combined string is not the
  concatenation of the embedded blocks and the linked style sheets. And three font style
  sheets whose references are not made absolute: an address without extension is left as
  it is; with two references on one line the first address runs to the extension of the
  second; and where \<open>$&\<close> occurs in the prefix the reference itself is copied into the
  new address.
\<close>

theorem assembleStyleSheets_quiz_and_fonts_counterexample:
  "claimedCombinedStyle bookServer ''https://host/Book'' styledBook = ''p{margin:0}.x{color:red}''
   \<and> styleRules (newState (assembleStyleSheets bookServer ''https://host/Book''
         (Some (httpget bookServer ''https://host/Book/quiz.css'')) styledBook initialState)) =
       ''p{margin:0}.x{color:red}.quiz{}''
   \<and> makeFontStylesheet (constantServer ''@font-face{src:url(noext)}'') ''https://host/Book/fonts.css'' =
       Some ''@font-face{src:url(noext)}''
   \<and> makeFontStylesheet (constantServer ''@font-face{src:url(a.woff) format('woff'), url(b.ttf)}'')
         ''https://host/Book/fonts.css'' =
       Some ''@font-face{src:url('https://host/Book/a.woff) format('woff'), url(b.ttf')}''
   \<and> makeFontStylesheet (constantServer ''@font-face{src:url(a.ttf)}'') ''https://host/a$&b/fonts.css'' =
       Some ''@font-face{src:url('https://host/asrc:url(a.ttf)b/a.ttf')}''"
  by code_simp

end
